theory Spec2Isabelle
  imports Complex_Main "HOL-Library.AList"
begin

section \<open>Data model (types.ts)\<close>

text \<open>
  The message kinds of \<^verbatim>\<open>WebSocketMessage.type\<close> (types.ts) together with the extra
  kind \<^verbatim>\<open>sync\<close> that the socket.io server's \<^verbatim>\<open>Message\<close> interface declares.
\<close>

datatype MsgType = user_joined | user_left | init | update | ping | pong | sync

text \<open>The particle payload is passed through and never computed with.\<close>

record Particle =
  position :: "real \<times> real \<times> real"
  rotation :: real
  scale :: real
  velocity :: "real \<times> real \<times> real"

text \<open>
  \<^verbatim>\<open>WebSocketMessage\<close>: the fields \<^verbatim>\<open>type, userId, timestamp, particles?, color?\<close>.
  The field names carry the prefix \<open>msg_\<close> to keep them apart from the fields of
  \<^verbatim>\<open>RoomClient\<close>.
\<close>

record WebSocketMessage =
  msg_type :: MsgType
  msg_userId :: string
  msg_timestamp :: int
  msg_particles :: "Particle list option"
  msg_color :: "int option"

text \<open>
  A frame on the wire. \<^verbatim>\<open>JSON.stringify\<close> and \<^verbatim>\<open>JSON.parse\<close> are not computed
  character by character: a well-formed frame is the message it encodes, and every
  text that \<^verbatim>\<open>JSON.parse\<close> rejects is a \<open>Malformed\<close> frame.
\<close>

datatype frame = Json WebSocketMessage | Malformed string

definition JSON_stringify :: "WebSocketMessage \<Rightarrow> frame" where
  "JSON_stringify m = Json m"

definition JSON_parse :: "frame \<Rightarrow> WebSocketMessage option" where
  "JSON_parse f = (case f of Json m \<Rightarrow> Some m | Malformed _ \<Rightarrow> None)"

text \<open>
  A \<^verbatim>\<open>WebSocket\<close> object of the \<^verbatim>\<open>ws\<close> library, as far as the manager uses it:
  its \<^verbatim>\<open>readyState\<close>, whether \<^verbatim>\<open>send\<close> raises (decided by the environment), the
  frames \<^verbatim>\<open>send\<close> has written so far (oldest first), and the closures that
  \<^verbatim>\<open>addClient\<close> registered with \<^verbatim>\<open>ws.on\<close>, each identified by the
  \<^verbatim>\<open>(roomId, userId)\<close> it captured.
\<close>

datatype ReadyState = CONNECTING | OPEN | CLOSING | CLOSED

record WebSocket =
  readyState :: ReadyState
  sendThrows :: bool
  sent :: "frame list"
  listeners :: "(string \<times> string) list"

text \<open>\<^verbatim>\<open>RoomClient\<close>, its fields \<^verbatim>\<open>ws, userId, lastSeen\<close> under the prefix \<open>client_\<close>
  (the functions below have parameters called \<^verbatim>\<open>ws\<close> and \<^verbatim>\<open>userId\<close>); \<open>client_ws\<close> is a
  reference to a \<^verbatim>\<open>WebSocket\<close> object.\<close>

record RoomClient =
  client_ws :: nat
  client_userId :: string
  client_lastSeen :: int

text \<open>
  \<^verbatim>\<open>Room\<close>; a JavaScript \<^verbatim>\<open>Map\<close> keeps insertion order, so \<open>clients\<close> is an
  association list. The field \<^verbatim>\<open>id\<close> is called \<open>id_room\<close>.
\<close>

record Room =
  id_room :: string
  clients :: "(string \<times> RoomClient) list"
  lastCleanup :: int

section \<open>The state of a RoomManager (RoomManager.ts)\<close>

text \<open>
  \<^verbatim>\<open>Room\<close> objects are mutable and are reached through references: \<open>rooms\<close> is
  \<^verbatim>\<open>this.rooms\<close>, a map from room ids to references, and \<open>roomHeap\<close> holds the object
  behind each reference. A room that was deleted from \<open>rooms\<close> stays in the heap, where a
  local variable that still refers to it can read and write it. \<open>sockets\<close> is the store of
  \<^verbatim>\<open>WebSocket\<close> objects. \<open>pingIntervals\<close> is \<^verbatim>\<open>this.pingIntervals\<close>; its values are
  timer handles, and \<open>liveIntervals\<close> lists the interval timers that are set and not
  cleared, each with the \<^verbatim>\<open>(roomId, userId)\<close> it pings. \<open>now\<close> is what \<^verbatim>\<open>Date.now()\<close>
  returns; it is constant during one synchronous operation.
\<close>

record state =
  rooms :: "(string \<times> nat) list"
  roomHeap :: "nat \<Rightarrow> Room"
  nextRoom :: nat
  sockets :: "nat \<Rightarrow> WebSocket"
  pingIntervals :: "(string \<times> nat) list"
  liveIntervals :: "(nat \<times> string \<times> string) list"
  nextTimer :: nat
  now :: int

definition CLEANUP_INTERVAL :: int where "CLEANUP_INTERVAL = 30000"
definition CLIENT_TIMEOUT :: int where "CLIENT_TIMEOUT = 60000"
definition PING_INTERVAL :: int where "PING_INTERVAL = 30000"

subsection \<open>WebSocket operations\<close>

text \<open>\<^verbatim>\<open>ws.send(f)\<close> on a socket whose send does not raise appends the frame.\<close>

definition ws_send :: "nat \<Rightarrow> frame \<Rightarrow> state \<Rightarrow> state" where
  "ws_send w f s =
     s\<lparr>sockets := (sockets s)(w := (sockets s w)\<lparr>sent := sent (sockets s w) @ [f]\<rparr>)\<rparr>"

text \<open>
  \<^verbatim>\<open>ws.close()\<close> starts the closing handshake: the socket is \<open>CLOSING\<close> at once, and its
  \<^verbatim>\<open>close\<close> event is delivered later, as an event of its own.
\<close>

definition ws_close :: "nat \<Rightarrow> state \<Rightarrow> state" where
  "ws_close w s = s\<lparr>sockets := (sockets s)(w := (sockets s w)\<lparr>readyState := CLOSING\<rparr>)\<rparr>"

subsection \<open>createRoom, getRoom, getOrCreateRoom\<close>

definition getRoom :: "state \<Rightarrow> string \<Rightarrow> nat option" where
  "getRoom s roomId = map_of (rooms s) roomId"

definition createRoom :: "string \<Rightarrow> state \<Rightarrow> nat \<times> state" where
  "createRoom roomId s =
     (let a = nextRoom s;
          room = \<lparr>id_room = roomId, clients = [], lastCleanup = now s\<rparr>
      in (a, s\<lparr>rooms := AList.update roomId a (rooms s),
               roomHeap := (roomHeap s)(a := room),
               nextRoom := Suc a\<rparr>))"

definition getOrCreateRoom :: "string \<Rightarrow> state \<Rightarrow> nat \<times> state" where
  "getOrCreateRoom roomId s =
     (case getRoom s roomId of Some a \<Rightarrow> (a, s) | None \<Rightarrow> createRoom roomId s)"

subsection \<open>broadcastToRoom and removeClient\<close>

text \<open>
  \<^verbatim>\<open>room.clients.forEach\<close> of \<^verbatim>\<open>broadcastToRoom\<close>. The keys are those the map had when
  the loop started; no entry is added while it runs, and an entry that was deleted
  before the loop reached it is not visited. \<open>rm\<close> is \<^verbatim>\<open>this.removeClient(roomId, _)\<close>,
  which returns \<open>None\<close> when it does not return. \<open>excludeUserId\<close> is optional, and
  \<^verbatim>\<open>!excludeUserId\<close> also holds for the empty string.
\<close>

definition setLastSeen :: "nat \<Rightarrow> string \<Rightarrow> int \<Rightarrow> state \<Rightarrow> state" where
  "setLastSeen a k t s =
     (case map_of (clients (roomHeap s a)) k of
        None \<Rightarrow> s
      | Some client \<Rightarrow>
          s\<lparr>roomHeap := (roomHeap s)(a := (roomHeap s a)
              \<lparr>clients := AList.update k (client\<lparr>client_lastSeen := t\<rparr>) (clients (roomHeap s a))\<rparr>)\<rparr>)"

definition notExcluded :: "string option \<Rightarrow> RoomClient \<Rightarrow> bool" where
  "notExcluded excludeUserId client =
     (case excludeUserId of None \<Rightarrow> True | Some e \<Rightarrow> e = [] \<or> client_userId client \<noteq> e)"

fun forEach_send ::
  "(string \<Rightarrow> state \<Rightarrow> state option) \<Rightarrow> nat \<Rightarrow> frame \<Rightarrow> string option \<Rightarrow>
   string list \<Rightarrow> state \<Rightarrow> state option" where
  "forEach_send rm a messageStr excludeUserId [] s = Some s"
| "forEach_send rm a messageStr excludeUserId (k # ks) s =
     (case map_of (clients (roomHeap s a)) k of
        None \<Rightarrow> forEach_send rm a messageStr excludeUserId ks s
      | Some client \<Rightarrow>
          if notExcluded excludeUserId client \<and> readyState (sockets s (client_ws client)) = OPEN
          then
            if sendThrows (sockets s (client_ws client))
            then (case rm (client_userId client) s of
                    None \<Rightarrow> None
                  | Some s' \<Rightarrow> forEach_send rm a messageStr excludeUserId ks s')
            else forEach_send rm a messageStr excludeUserId ks
                   (setLastSeen a k (now s) (ws_send (client_ws client) messageStr s))
          else forEach_send rm a messageStr excludeUserId ks s)"

definition broadcastWith ::
  "(string \<Rightarrow> string \<Rightarrow> state \<Rightarrow> state option) \<Rightarrow> string \<Rightarrow> WebSocketMessage \<Rightarrow>
   string option \<Rightarrow> state \<Rightarrow> state option" where
  "broadcastWith rm roomId message excludeUserId s =
     (case getRoom s roomId of
        None \<Rightarrow> Some s
      | Some a \<Rightarrow>
          forEach_send (rm roomId) a (JSON_stringify message) excludeUserId
            (map fst (clients (roomHeap s a))) s)"

text \<open>The key of \<^verbatim>\<open>this.pingIntervals\<close>: the template string \<^verbatim>\<open>${roomId}-${userId}\<close>.\<close>

definition pingKey :: "string \<Rightarrow> string \<Rightarrow> string" where
  "pingKey roomId userId = roomId @ ''-'' @ userId"

text \<open>Lines 141 to 146 of \<^verbatim>\<open>removeClient\<close>: clear the ping interval.\<close>

definition clearPing :: "string \<Rightarrow> string \<Rightarrow> state \<Rightarrow> state" where
  "clearPing roomId userId s =
     (case map_of (pingIntervals s) (pingKey roomId userId) of
        None \<Rightarrow> s
      | Some t \<Rightarrow>
          s\<lparr>liveIntervals := filter (\<lambda>e. fst e \<noteq> t) (liveIntervals s),
            pingIntervals := AList.delete (pingKey roomId userId) (pingIntervals s)\<rparr>)"

text \<open>
  Lines 148 to 158 of \<^verbatim>\<open>removeClient\<close>: \<open>a\<close> is the local variable \<^verbatim>\<open>room\<close>. The entry
  is deleted from that object, and the room id is deleted from \<^verbatim>\<open>this.rooms\<close> when the
  object is left with no client.
\<close>

definition deleteClient :: "nat \<Rightarrow> string \<Rightarrow> string \<Rightarrow> state \<Rightarrow> state" where
  "deleteClient a roomId userId s =
     (if map_of (clients (roomHeap s a)) userId \<noteq> None
      then
        (let s1 = s\<lparr>roomHeap := (roomHeap s)(a := (roomHeap s a)
                      \<lparr>clients := AList.delete userId (clients (roomHeap s a))\<rparr>)\<rparr>
         in if clients (roomHeap s1 a) = []
            then s1\<lparr>rooms := AList.delete roomId (rooms s1)\<rparr>
            else s1)
      else s)"

text \<open>
  \<^verbatim>\<open>removeClient\<close> and \<^verbatim>\<open>broadcastToRoom\<close> call each other, and nothing bounds the depth
  of these calls. The first argument is the number of nested \<^verbatim>\<open>removeClient\<close> calls
  still allowed; \<open>None\<close> says that this depth was not enough.
\<close>

primrec removeClient :: "nat \<Rightarrow> string \<Rightarrow> string \<Rightarrow> state \<Rightarrow> state option" where
  "removeClient 0 roomId userId s = None"
| "removeClient (Suc n) roomId userId s =
     (case getRoom s roomId of
        None \<Rightarrow> Some s
      | Some a \<Rightarrow>
          (case broadcastWith (removeClient n) roomId
                  \<lparr>msg_type = user_left, msg_userId = userId, msg_timestamp = now s,
                   msg_particles = None, msg_color = None\<rparr>
                  (Some userId) s of
             None \<Rightarrow> None
           | Some s1 \<Rightarrow> Some (deleteClient a roomId userId (clearPing roomId userId s1))))"

definition broadcastToRoom ::
  "nat \<Rightarrow> string \<Rightarrow> WebSocketMessage \<Rightarrow> string option \<Rightarrow> state \<Rightarrow> state option" where
  "broadcastToRoom n roomId message excludeUserId s =
     broadcastWith (removeClient n) roomId message excludeUserId s"

subsection \<open>pingClient, updateClientLastSeen, addClient\<close>

definition pingClient :: "nat \<Rightarrow> string \<Rightarrow> string \<Rightarrow> state \<Rightarrow> state option" where
  "pingClient n roomId userId s =
     (case getRoom s roomId of
        None \<Rightarrow> removeClient n roomId userId s
      | Some a \<Rightarrow>
          (case map_of (clients (roomHeap s a)) userId of
             None \<Rightarrow> removeClient n roomId userId s
           | Some client \<Rightarrow>
               if readyState (sockets s (client_ws client)) = OPEN
               then
                 if sendThrows (sockets s (client_ws client))
                 then removeClient n roomId userId s
                 else Some (ws_send (client_ws client)
                        (JSON_stringify
                           \<lparr>msg_type = ping, msg_userId = ''server'', msg_timestamp = now s,
                            msg_particles = None, msg_color = None\<rparr>) s)
               else removeClient n roomId userId s))"

definition updateClientLastSeen :: "string \<Rightarrow> string \<Rightarrow> state \<Rightarrow> state" where
  "updateClientLastSeen roomId userId s =
     (case getRoom s roomId of
        None \<Rightarrow> s
      | Some a \<Rightarrow> setLastSeen a userId (now s) s)"

text \<open>
  Lines 62 to 94 of \<^verbatim>\<open>addClient\<close>: a fresh interval timer is set and stored under the
  ping key (an older handle under that key is overwritten, not cleared), and the
  message, close and error closures are registered on the socket.
\<close>

definition setPing :: "string \<Rightarrow> string \<Rightarrow> state \<Rightarrow> state" where
  "setPing roomId userId s =
     s\<lparr>liveIntervals := liveIntervals s @ [(nextTimer s, roomId, userId)],
       pingIntervals := AList.update (pingKey roomId userId) (nextTimer s) (pingIntervals s),
       nextTimer := Suc (nextTimer s)\<rparr>"

definition ws_on :: "nat \<Rightarrow> string \<Rightarrow> string \<Rightarrow> state \<Rightarrow> state" where
  "ws_on w roomId userId s =
     s\<lparr>sockets := (sockets s)(w := (sockets s w)
         \<lparr>listeners := listeners (sockets s w) @ [(roomId, userId)]\<rparr>)\<rparr>"

text \<open>
  \<^verbatim>\<open>addClient\<close>. \<open>a\<close> is the local variable \<^verbatim>\<open>room\<close>: the reference is read once, on
  line 42, and \<^verbatim>\<open>room.clients.set\<close> on line 58 writes to the object behind it, whether
  or not \<^verbatim>\<open>this.rooms\<close> still holds it.
\<close>

definition addClient :: "nat \<Rightarrow> string \<Rightarrow> string \<Rightarrow> nat \<Rightarrow> state \<Rightarrow> state option" where
  "addClient n roomId userId ws s =
     (let (a, s0) = getOrCreateRoom roomId s in
      case (case map_of (clients (roomHeap s0 a)) userId of
              None \<Rightarrow> Some s0
            | Some oldClient \<Rightarrow>
                removeClient n roomId userId
                  (if readyState (sockets s0 (client_ws oldClient)) = OPEN
                   then ws_close (client_ws oldClient) s0 else s0)) of
        None \<Rightarrow> None
      | Some s2 \<Rightarrow>
          (let client = \<lparr>client_ws = ws, client_userId = userId, client_lastSeen = now s2\<rparr>;
               s3 = s2\<lparr>roomHeap := (roomHeap s2)(a := (roomHeap s2 a)
                        \<lparr>clients := AList.update userId client (clients (roomHeap s2 a))\<rparr>)\<rparr>
           in pingClient n roomId userId (ws_on ws roomId userId (setPing roomId userId s3))))"

subsection \<open>cleanupInactiveClients\<close>

text \<open>
  The inner \<^verbatim>\<open>room.clients.forEach\<close> of the sweep, over the keys the map had when the
  loop started; \<open>t\<close> is the constant \<^verbatim>\<open>now\<close> read on line 190.
\<close>

fun forEach_evict ::
  "nat \<Rightarrow> int \<Rightarrow> string \<Rightarrow> nat \<Rightarrow> string list \<Rightarrow> state \<Rightarrow> state option" where
  "forEach_evict n t roomId a [] s = Some s"
| "forEach_evict n t roomId a (k # ks) s =
     (case map_of (clients (roomHeap s a)) k of
        None \<Rightarrow> forEach_evict n t roomId a ks s
      | Some client \<Rightarrow>
          if t - client_lastSeen client > CLIENT_TIMEOUT
          then (case removeClient n roomId k s of
                  None \<Rightarrow> None
                | Some s' \<Rightarrow> forEach_evict n t roomId a ks s')
          else forEach_evict n t roomId a ks s)"

text \<open>
  The outer \<^verbatim>\<open>this.rooms.forEach\<close>, over the keys the map had when the sweep started;
  no room is added while it runs, and a room deleted before the loop reached it is not
  visited. \<open>a\<close> is the callback's parameter \<^verbatim>\<open>room\<close>.
\<close>

fun forEach_room :: "nat \<Rightarrow> int \<Rightarrow> string list \<Rightarrow> state \<Rightarrow> state option" where
  "forEach_room n t [] s = Some s"
| "forEach_room n t (roomId # rs) s =
     (case map_of (rooms s) roomId of
        None \<Rightarrow> forEach_room n t rs s
      | Some a \<Rightarrow>
          if t - lastCleanup (roomHeap s a) < CLEANUP_INTERVAL then forEach_room n t rs s
          else
            (case forEach_evict n t roomId a (map fst (clients (roomHeap s a))) s of
               None \<Rightarrow> None
             | Some s' \<Rightarrow>
                 forEach_room n t rs
                   (s'\<lparr>roomHeap := (roomHeap s')(a := (roomHeap s' a)\<lparr>lastCleanup := t\<rparr>)\<rparr>)))"

definition cleanupInactiveClients :: "nat \<Rightarrow> state \<Rightarrow> state option" where
  "cleanupInactiveClients n s = forEach_room n (now s) (map fst (rooms s)) s"

section \<open>The ws server (part_001)\<close>

text \<open>
  The variables a \<^verbatim>\<open>wss.on('connection')\<close> callback closes over: \<^verbatim>\<open>ws\<close>,
  \<^verbatim>\<open>roomId\<close> and the mutable \<^verbatim>\<open>userId\<close>, which is \<^verbatim>\<open>undefined\<close> until the
  connection has sent a \<^verbatim>\<open>user_joined\<close> message.
\<close>

record Conn =
  conn_ws :: nat
  conn_roomId :: string
  conn_userId :: "string option"

text \<open>\<^verbatim>\<open>url.split('/').pop()\<close>: the text after the last slash.\<close>

definition lastSegment :: "string \<Rightarrow> string" where
  "lastSegment url = rev (takeWhile (\<lambda>c. c \<noteq> CHR ''/'') (rev url))"

text \<open>
  Lines 21 to 26: \<^verbatim>\<open>req.url?.split('/').pop() || 'default'\<close>. The callback only
  registers listeners; it reads and writes nothing of the manager.
\<close>

definition wss_connection :: "nat \<Rightarrow> string option \<Rightarrow> state \<Rightarrow> Conn \<times> state" where
  "wss_connection ws url s =
     (let roomId = (case url of
                      None \<Rightarrow> ''default''
                    | Some u \<Rightarrow> if lastSegment u = [] then ''default'' else lastSegment u)
      in (\<lparr>conn_ws = ws, conn_roomId = roomId, conn_userId = None\<rparr>, s))"

text \<open>
  Lines 37 to 49: the server itself closes and deletes a client that is already
  registered under the user id, straight on the room's map.
\<close>

definition dropOld :: "string \<Rightarrow> string \<Rightarrow> state \<Rightarrow> state" where
  "dropOld roomId userId s =
     (case getRoom s roomId of
        None \<Rightarrow> s
      | Some a \<Rightarrow>
          (case map_of (clients (roomHeap s a)) userId of
             None \<Rightarrow> s
           | Some oldClient \<Rightarrow>
               (let s1 = (if readyState (sockets s (client_ws oldClient)) = OPEN
                          then ws_close (client_ws oldClient) s else s)
                in s1\<lparr>roomHeap := (roomHeap s1)(a := (roomHeap s1 a)
                       \<lparr>clients := AList.delete userId (clients (roomHeap s1 a))\<rparr>)\<rparr>)))"

text \<open>
  Lines 28 to 70, the server's \<^verbatim>\<open>message\<close> listener. A frame that \<^verbatim>\<open>JSON.parse\<close>
  rejects is logged and dropped. \<open>None\<close> is the \<open>None\<close> of \<open>removeClient\<close>.
\<close>

definition server_onMessage :: "nat \<Rightarrow> Conn \<Rightarrow> frame \<Rightarrow> state \<Rightarrow> (Conn \<times> state) option" where
  "server_onMessage n conn message s =
     (case JSON_parse message of
        None \<Rightarrow> Some (conn, s)
      | Some data \<Rightarrow>
          (case (if msg_type data = user_joined \<and> msg_userId data \<noteq> []
                 then
                   (case addClient n (conn_roomId conn) (msg_userId data) (conn_ws conn)
                           (dropOld (conn_roomId conn) (msg_userId data) s) of
                      None \<Rightarrow> None
                    | Some s2 \<Rightarrow>
                        (case broadcastToRoom n (conn_roomId conn)
                                \<lparr>msg_type = user_joined, msg_userId = msg_userId data,
                                 msg_timestamp = now s2, msg_particles = None,
                                 msg_color = None\<rparr>
                                (Some (msg_userId data)) s2 of
                           None \<Rightarrow> None
                         | Some s3 \<Rightarrow> Some (conn\<lparr>conn_userId := Some (msg_userId data)\<rparr>, s3)))
                 else Some (conn, s)) of
             None \<Rightarrow> None
           | Some (conn', s4) \<Rightarrow>
               (case conn_userId conn' of
                  None \<Rightarrow> Some (conn', s4)
                | Some u \<Rightarrow>
                    if u = [] then Some (conn', s4)
                    else (case broadcastToRoom n (conn_roomId conn') data (Some u) s4 of
                            None \<Rightarrow> None
                          | Some s5 \<Rightarrow> Some (conn', s5)))))"

text \<open>Lines 69 to 79 of RoomManager.ts: the \<^verbatim>\<open>message\<close> listener of \<^verbatim>\<open>addClient\<close>.\<close>

definition manager_onMessage :: "string \<Rightarrow> string \<Rightarrow> frame \<Rightarrow> state \<Rightarrow> state" where
  "manager_onMessage roomId userId message s =
     (case JSON_parse message of
        None \<Rightarrow> s
      | Some data \<Rightarrow> if msg_type data = pong then updateClientLastSeen roomId userId s else s)"

text \<open>
  A \<^verbatim>\<open>message\<close> event on the socket of a connection: the listeners run in the order of
  their registration, the server's first, then those \<^verbatim>\<open>addClient\<close> had registered on
  the socket when the event was emitted.
\<close>

definition ws_emit_message :: "nat \<Rightarrow> Conn \<Rightarrow> frame \<Rightarrow> state \<Rightarrow> (Conn \<times> state) option" where
  "ws_emit_message n conn message s =
     (case server_onMessage n conn message s of
        None \<Rightarrow> None
      | Some (conn', s1) \<Rightarrow>
          Some (conn', fold (\<lambda>(roomId, userId). manager_onMessage roomId userId message)
                         (listeners (sockets s (conn_ws conn))) s1))"

text \<open>
  A \<^verbatim>\<open>close\<close> event: the socket is \<open>CLOSED\<close>; the server's listener (lines 73 to 78)
  and then each listener of \<^verbatim>\<open>addClient\<close> (lines 82 to 85 of RoomManager.ts) call
  \<^verbatim>\<open>removeClient\<close>.
\<close>

fun closeListeners :: "nat \<Rightarrow> (string \<times> string) list \<Rightarrow> state \<Rightarrow> state option" where
  "closeListeners n [] s = Some s"
| "closeListeners n ((roomId, userId) # ls) s =
     (case removeClient n roomId userId s of
        None \<Rightarrow> None
      | Some s' \<Rightarrow> closeListeners n ls s')"

definition ws_emit_close :: "nat \<Rightarrow> Conn \<Rightarrow> state \<Rightarrow> state option" where
  "ws_emit_close n conn s =
     (let s0 = s\<lparr>sockets := (sockets s)(conn_ws conn :=
                  (sockets s (conn_ws conn))\<lparr>readyState := CLOSED\<rparr>)\<rparr>
      in case (case conn_userId conn of
                 None \<Rightarrow> Some s0
               | Some u \<Rightarrow> if u = [] then Some s0 else removeClient n (conn_roomId conn) u s0) of
           None \<Rightarrow> None
         | Some s1 \<Rightarrow> closeListeners n (listeners (sockets s (conn_ws conn))) s1)"

section \<open>The socket.io server (part_000, types of part_002)\<close>

record User =
  id_user :: string
  color :: int
  particles :: "Particle list option"
  lastUpdate :: int

record Room_io =
  users :: "(string \<times> User) list"
  lastActivity :: int

text \<open>
  What the server hands to socket.io: \<^verbatim>\<open>io.to(roomId).emit('message', m)\<close> and
  \<^verbatim>\<open>socket.to(roomId).emit('message', m)\<close>, the second with the id of the socket that
  is left out. The objects emitted have the fields of \<open>WebSocketMessage\<close>.
\<close>

datatype emit =
  ToRoom string WebSocketMessage
| ToRoomExcept string string WebSocketMessage

text \<open>
  The module's state: \<^verbatim>\<open>rooms\<close> (references into a heap of room objects, as above),
  \<^verbatim>\<open>socketToUser\<close>, the socket.io rooms that sockets joined, the emits in order, the
  sockets on which \<^verbatim>\<open>disconnect()\<close> was called, and the clock.
\<close>

record state_io =
  rooms_io :: "(string \<times> nat) list"
  roomHeap_io :: "nat \<Rightarrow> Room_io"
  nextRoom_io :: nat
  socketToUser :: "(string \<times> string) list"
  joined :: "(string \<times> string) list"
  emitted :: "emit list"
  disconnected :: "string list"
  now_io :: int

text \<open>
  The variables the listeners of one connection close over: \<^verbatim>\<open>socket\<close> (its id),
  \<^verbatim>\<open>userId\<close>, \<^verbatim>\<open>roomId\<close> and \<^verbatim>\<open>room\<close>, a reference read once on line 48.
\<close>

record Conn_io =
  io_socket :: string
  io_userId :: string
  io_roomId :: string
  io_room :: nat

text \<open>
  Lines 34 to 71. The two query parameters may be absent; \<^verbatim>\<open>!userId\<close> also holds for
  the empty string. A connection that is refused gets no listeners.
\<close>

definition falsy :: "string option \<Rightarrow> bool" where
  "falsy x = (case x of None \<Rightarrow> True | Some v \<Rightarrow> v = [])"

definition io_connection ::
  "string \<Rightarrow> string option \<Rightarrow> string option \<Rightarrow> state_io \<Rightarrow> Conn_io option \<times> state_io" where
  "io_connection socket userIdQ roomIdQ s =
     (if falsy userIdQ \<or> falsy roomIdQ
      then (None, s\<lparr>disconnected := disconnected s @ [socket]\<rparr>)
      else
        (let userId = the userIdQ; roomId = the roomIdQ;
             s1 = (if map_of (rooms_io s) roomId = None
                   then s\<lparr>rooms_io := AList.update roomId (nextRoom_io s) (rooms_io s),
                          roomHeap_io := (roomHeap_io s)(nextRoom_io s :=
                             \<lparr>users = [], lastActivity = now_io s\<rparr>),
                          nextRoom_io := Suc (nextRoom_io s)\<rparr>
                   else s);
             a = the (map_of (rooms_io s1) roomId);
             s2 = s1\<lparr>roomHeap_io := (roomHeap_io s1)(a := (roomHeap_io s1 a)
                       \<lparr>users := AList.update userId
                           \<lparr>id_user = userId, color = 16777215, particles = None,
                            lastUpdate = now_io s1\<rparr>
                           (users (roomHeap_io s1 a))\<rparr>),
                     socketToUser := AList.update socket userId (socketToUser s1),
                     joined := joined s1 @ [(socket, roomId)],
                     emitted := emitted s1 @
                       [ToRoom roomId
                          \<lparr>msg_type = user_joined, msg_userId = userId,
                           msg_timestamp = now_io s1, msg_particles = None,
                           msg_color = None\<rparr>]\<rparr>
         in (Some \<lparr>io_socket = socket, io_userId = userId, io_roomId = roomId, io_room = a\<rparr>,
             s2)))"

text \<open>
  Lines 73 to 95, the \<^verbatim>\<open>update\<close> listener; \<^verbatim>\<open>message.color || user.color\<close> keeps the
  user's colour when the message has none or has 0.
\<close>

definition io_update :: "Conn_io \<Rightarrow> WebSocketMessage \<Rightarrow> state_io \<Rightarrow> state_io" where
  "io_update c message s =
     (let a = io_room c;
          s1 = s\<lparr>roomHeap_io := (roomHeap_io s)(a := (roomHeap_io s a)
                    \<lparr>lastActivity := now_io s\<rparr>)\<rparr>
      in case map_of (users (roomHeap_io s1 a)) (io_userId c) of
           None \<Rightarrow> s1
         | Some user \<Rightarrow>
             s1\<lparr>roomHeap_io := (roomHeap_io s1)(a := (roomHeap_io s1 a)
                   \<lparr>users := AList.update (io_userId c)
                       (user\<lparr>particles := msg_particles message,
                             color := (case msg_color message of
                                         None \<Rightarrow> color user
                                       | Some v \<Rightarrow> if v = 0 then color user else v),
                             lastUpdate := now_io s1\<rparr>)
                       (users (roomHeap_io s1 a))\<rparr>),
                emitted := emitted s1 @
                  [ToRoomExcept (io_roomId c) (io_socket c)
                     \<lparr>msg_type = update, msg_userId = io_userId c,
                      msg_timestamp = now_io s1,
                      msg_particles = msg_particles message,
                      msg_color = msg_color message\<rparr>]\<rparr>)"

text \<open>Lines 97 to 115, the \<^verbatim>\<open>disconnect\<close> listener.\<close>

definition io_disconnect :: "Conn_io \<Rightarrow> state_io \<Rightarrow> state_io" where
  "io_disconnect c s =
     (if falsy (map_of (socketToUser s) (io_socket c)) then s
      else
        (let uid = the (map_of (socketToUser s) (io_socket c));
             a = io_room c;
             s1 = s\<lparr>roomHeap_io := (roomHeap_io s)(a := (roomHeap_io s a)
                       \<lparr>users := AList.delete uid (users (roomHeap_io s a))\<rparr>),
                     socketToUser := AList.delete (io_socket c) (socketToUser s),
                     emitted := emitted s @
                       [ToRoom (io_roomId c)
                          \<lparr>msg_type = user_left, msg_userId = uid,
                           msg_timestamp = now_io s, msg_particles = None,
                           msg_color = None\<rparr>]\<rparr>
         in if users (roomHeap_io s1 a) = []
            then s1\<lparr>rooms_io := AList.delete (io_roomId c) (rooms_io s1)\<rparr>
            else s1))"

section \<open>Observations and concrete states\<close>

text \<open>The \<^verbatim>\<open>lastSeen\<close> of the client registered for a user in a room, if there is one.\<close>

definition lastSeenOf :: "state \<Rightarrow> string \<Rightarrow> string \<Rightarrow> int option" where
  "lastSeenOf s roomId userId =
     (case getRoom s roomId of
        None \<Rightarrow> None
      | Some a \<Rightarrow> map_option client_lastSeen (map_of (clients (roomHeap s a)) userId))"

text \<open>The user ids registered in a room, in the order of the room's map.\<close>

definition members :: "state \<Rightarrow> string \<Rightarrow> string list option" where
  "members s roomId =
     (case getRoom s roomId of
        None \<Rightarrow> None
      | Some a \<Rightarrow> Some (map fst (clients (roomHeap s a))))"

text \<open>A socket that has sent nothing and has no listener.\<close>

definition socket0 :: "ReadyState \<Rightarrow> bool \<Rightarrow> WebSocket" where
  "socket0 r t = \<lparr>readyState = r, sendThrows = t, sent = [], listeners = []\<rparr>"

definition room0 :: Room where
  "room0 = \<lparr>id_room = [], clients = [], lastCleanup = 0\<rparr>"

text \<open>A manager right after its constructor, with the given sockets and clock.\<close>

definition manager0 :: "(nat \<Rightarrow> WebSocket) \<Rightarrow> int \<Rightarrow> state" where
  "manager0 so t =
     \<lparr>rooms = [], roomHeap = (\<lambda>_. room0), nextRoom = 0, sockets = so,
      pingIntervals = [], liveIntervals = [], nextTimer = 0, now = t\<rparr>"

text \<open>The entry \<^verbatim>\<open>addClient\<close> stores for a user.\<close>

definition member :: "string \<Rightarrow> nat \<Rightarrow> int \<Rightarrow> string \<times> RoomClient" where
  "member userId ws t = (userId, \<lparr>client_ws = ws, client_userId = userId, client_lastSeen = t\<rparr>)"

text \<open>A manager with one room, at reference 0, last swept at time 0.\<close>

definition manager1 ::
  "string \<Rightarrow> (string \<times> RoomClient) list \<Rightarrow> (nat \<Rightarrow> WebSocket) \<Rightarrow> int \<Rightarrow> state" where
  "manager1 roomId cs so t =
     \<lparr>rooms = [(roomId, 0)],
      roomHeap = (\<lambda>_. room0)(0 := \<lparr>id_room = roomId, clients = cs, lastCleanup = 0\<rparr>),
      nextRoom = 1, sockets = so,
      pingIntervals = [], liveIntervals = [], nextTimer = 0, now = t\<rparr>"

definition message :: "MsgType \<Rightarrow> string \<Rightarrow> int \<Rightarrow> WebSocketMessage" where
  "message ty userId t =
     \<lparr>msg_type = ty, msg_userId = userId, msg_timestamp = t,
      msg_particles = None, msg_color = None\<rparr>"

text \<open>Sockets that are all open and whose \<^verbatim>\<open>send\<close> never raises.\<close>

definition allOpen :: "nat \<Rightarrow> WebSocket" where
  "allOpen = (\<lambda>_. socket0 OPEN False)"

text \<open>A manager with two rooms, at the references 0 and 1.\<close>

definition manager2 :: "Room \<Rightarrow> Room \<Rightarrow> (nat \<Rightarrow> WebSocket) \<Rightarrow> int \<Rightarrow> state" where
  "manager2 r1 r2 so t =
     \<lparr>rooms = [(id_room r1, 0), (id_room r2, 1)],
      roomHeap = (\<lambda>_. room0)(0 := r1, 1 := r2),
      nextRoom = 2, sockets = so,
      pingIntervals = [], liveIntervals = [], nextTimer = 0, now = t\<rparr>"

text \<open>The socket.io server's module state before any connection.\<close>

definition server_io0 :: "int \<Rightarrow> state_io" where
  "server_io0 t =
     \<lparr>rooms_io = [], roomHeap_io = (\<lambda>_. \<lparr>users = [], lastActivity = 0\<rparr>), nextRoom_io = 0,
      socketToUser = [], joined = [], emitted = [], disconnected = [], now_io = t\<rparr>"

text \<open>
  Room R1 with alice, last seen at time 0, and room R2 with bob, last seen at 99000,
  both last swept at time 0; the clock stands at 100000.
\<close>

definition twoRooms :: state where
  "twoRooms =
     manager2 \<lparr>id_room = ''R1'', clients = [member ''alice'' 1 0], lastCleanup = 0\<rparr>
              \<lparr>id_room = ''R2'', clients = [member ''bob'' 2 99000], lastCleanup = 0\<rparr>
              allOpen 100000"

text \<open>
  Room R1, last swept at time 0, with alice and bob, both last seen at time 0, on open
  sockets; the clock stands at 100000.
\<close>

definition twoStale :: state where
  "twoStale = manager1 ''R1'' [member ''alice'' 1 0, member ''bob'' 2 0] allOpen 100000"

text \<open>
  Room R1, last swept at time 0, with alice last seen at 0, bob last seen at 90000 and
  dave last seen at 0, dave's socket being closed; room R2, last swept at 90000, with
  carol last seen at 0; the clock stands at 100000.
\<close>

definition sweepRooms :: state where
  "sweepRooms =
     manager2 \<lparr>id_room = ''R1'',
               clients = [member ''alice'' 1 0, member ''bob'' 2 90000, member ''dave'' 4 0],
               lastCleanup = 0\<rparr>
              \<lparr>id_room = ''R2'', clients = [member ''carol'' 3 0], lastCleanup = 90000\<rparr>
              (allOpen(4 := socket0 CLOSED False)) 100000"

text \<open>
  Room R1 with alice on socket 1 and bob on socket 2, both last seen at time 500, each
  socket with the listener \<^verbatim>\<open>addClient\<close> registered; the clock stands at 1000.
\<close>

definition aliceAndBob :: state where
  "aliceAndBob =
     manager1 ''R1'' [member ''alice'' 1 500, member ''bob'' 2 500]
       (allOpen(1 := (socket0 OPEN False)\<lparr>listeners := [(''R1'', ''alice'')]\<rparr>,
                2 := (socket0 OPEN False)\<lparr>listeners := [(''R1'', ''bob'')]\<rparr>)) 1000"

text \<open>The socket.io server after alice has connected to room R1 on the socket s1.\<close>

definition io_alice :: "Conn_io option \<times> state_io" where
  "io_alice = io_connection ''s1'' (Some ''alice'') (Some ''R1'') (server_io0 1000)"

section \<open>Relations used in the proofs\<close>

text \<open>
  The user ids of the clients of the room object \<open>a\<close> whose socket is open and whose
  \<^verbatim>\<open>send\<close> raises: the user ids for which \<^verbatim>\<open>broadcastToRoom\<close> calls
  \<^verbatim>\<open>removeClient\<close>.
\<close>

definition throwerIds :: "state \<Rightarrow> nat \<Rightarrow> string set" where
  "throwerIds s a =
     {client_userId c | k c. map_of (clients (roomHeap s a)) k = Some c \<and>
        readyState (sockets s (client_ws c)) = OPEN \<and> sendThrows (sockets s (client_ws c))}"

text \<open>
  The states that a run of \<^verbatim>\<open>removeClient\<close> and \<^verbatim>\<open>broadcastToRoom\<close> on the room
  \<open>roomId\<close>, whose object is \<open>a\<close>, can pass through from \<open>s\<close>: each step is a delivery
  to a client of \<open>a\<close> whose socket is open and does not raise, or the tail of
  \<^verbatim>\<open>removeClient\<close> (lines 141 to 158) for a user id in \<open>U\<close>.
\<close>

inductive reach :: "string \<Rightarrow> nat \<Rightarrow> string set \<Rightarrow> state \<Rightarrow> state \<Rightarrow> bool"
  for roomId :: string and a :: nat and U :: "string set" and s :: state where
  reach_refl: "reach roomId a U s s"
| reach_send: "reach roomId a U s s1 \<Longrightarrow> map_of (clients (roomHeap s1 a)) k = Some c \<Longrightarrow>
     readyState (sockets s1 (client_ws c)) = OPEN \<Longrightarrow> \<not> sendThrows (sockets s1 (client_ws c)) \<Longrightarrow>
     reach roomId a U s (setLastSeen a k (now s1) (ws_send (client_ws c) f s1))"
| reach_del: "reach roomId a U s s1 \<Longrightarrow> u \<in> U \<Longrightarrow>
     reach roomId a U s (deleteClient a roomId u (clearPing roomId u s1))"

text \<open>
  The room object \<open>a\<close> has a client under the key \<open>k\<close>, with that user id, whose socket
  is open and whose \<^verbatim>\<open>send\<close> raises.
\<close>

definition thrower :: "state \<Rightarrow> nat \<Rightarrow> string \<Rightarrow> bool" where
  "thrower s a k =
     (case map_of (clients (roomHeap s a)) k of
        None \<Rightarrow> False
      | Some c \<Rightarrow> client_userId c = k \<and> readyState (sockets s (client_ws c)) = OPEN \<and>
                  sendThrows (sockets s (client_ws c)))"


text \<open>No registered room is without a client.\<close>

definition noEmptyRoom :: "state \<Rightarrow> bool" where
  "noEmptyRoom s = (\<forall>(r, a) \<in> set (rooms s). clients (roomHeap s a) \<noteq> [])"

definition noEmptyRoom_io :: "state_io \<Rightarrow> bool" where
  "noEmptyRoom_io s = (\<forall>(r, a) \<in> set (rooms_io s). users (roomHeap_io s a) \<noteq> [])"

text \<open>
  No registered room is without a client, and no two room ids refer to the same
  \<^verbatim>\<open>Room\<close> object.
\<close>

definition regInv :: "state \<Rightarrow> bool" where
  "regInv s = (noEmptyRoom s \<and> distinct (map snd (rooms s)))"


text \<open>No client that the room's map holds has been silent for longer than the timeout.\<close>

definition noneStale :: "int \<Rightarrow> Room \<Rightarrow> bool" where
  "noneStale t room =
     (\<forall>(k, c) \<in> set (clients room).
        map_of (clients room) k = Some c \<longrightarrow> t - client_lastSeen c \<le> CLIENT_TIMEOUT)"

text \<open>
  From \<open>s\<close> to \<open>s'\<close> the clock stands still, every client of \<open>s'\<close> is a client of \<open>s\<close>
  whose \<^verbatim>\<open>lastSeen\<close> is unchanged or is the clock's time, and every registered room
  of \<open>s'\<close> is registered in \<open>s\<close>.
\<close>

definition ages :: "state \<Rightarrow> state \<Rightarrow> bool" where
  "ages s s' \<longleftrightarrow>
     now s' = now s \<and>
     (\<forall>b k c'. map_of (clients (roomHeap s' b)) k = Some c' \<longrightarrow>
        (\<exists>c. map_of (clients (roomHeap s b)) k = Some c \<and>
             (client_lastSeen c' = client_lastSeen c \<or> client_lastSeen c' = now s))) \<and>
     (\<forall>r b. map_of (rooms s') r = Some b \<longrightarrow> map_of (rooms s) r = Some b)"

text \<open>No socket's \<^verbatim>\<open>send\<close> raises.\<close>

definition quiet :: "state \<Rightarrow> bool" where
  "quiet s = (\<forall>w. \<not> sendThrows (sockets s w))"

text \<open>
  The room object \<open>a\<close> holds a client under the key \<open>k\<close> that is not stale at the
  clock's time, and no client of \<open>a\<close> whose \<^verbatim>\<open>send\<close> raises carries the user id \<open>k\<close>.
\<close>

definition freshMember :: "state \<Rightarrow> nat \<Rightarrow> string \<Rightarrow> bool" where
  "freshMember s a k =
     ((case map_of (clients (roomHeap s a)) k of
         None \<Rightarrow> False
       | Some c \<Rightarrow> now s - client_lastSeen c \<le> CLIENT_TIMEOUT) \<and>
      k \<notin> throwerIds s a)"

text \<open>
  The room object \<open>a\<close> holds no client under the key \<open>k\<close>, or one that is stale at the
  clock's time and whose socket is not open.
\<close>

definition closedStale :: "state \<Rightarrow> nat \<Rightarrow> string \<Rightarrow> bool" where
  "closedStale s a k =
     (case map_of (clients (roomHeap s a)) k of
        None \<Rightarrow> True
      | Some c \<Rightarrow> now s - client_lastSeen c > CLIENT_TIMEOUT \<and>
                  readyState (sockets s (client_ws c)) \<noteq> OPEN)"

section \<open>Evaluation of the definitions\<close>

lemmas manager_defs =
  addClient_def getOrCreateRoom_def getRoom_def createRoom_def pingClient_def
  setPing_def ws_on_def ws_send_def ws_close_def broadcastToRoom_def broadcastWith_def
  deleteClient_def clearPing_def pingKey_def setLastSeen_def notExcluded_def
  JSON_stringify_def JSON_parse_def updateClientLastSeen_def

lemmas scenario_defs =
  manager0_def manager1_def manager2_def allOpen_def socket0_def room0_def member_def
  message_def lastSeenOf_def members_def twoRooms_def sweepRooms_def aliceAndBob_def

lemmas io_defs =
  io_connection_def io_update_def io_disconnect_def falsy_def server_io0_def io_alice_def

lemmas server_defs =
  ws_emit_message_def server_onMessage_def manager_onMessage_def ws_emit_close_def
  wss_connection_def lastSegment_def dropOld_def

section \<open>What a run of removeClient can change\<close>

lemma send_simps [simp]:
  "now (setLastSeen a k t s) = now s"
  "rooms (setLastSeen a k t s) = rooms s"
  "sockets (setLastSeen a k t s) = sockets s"
  "now (ws_send w f s) = now s"
  "rooms (ws_send w f s) = rooms s"
  "roomHeap (ws_send w f s) = roomHeap s"
  "b \<noteq> a \<Longrightarrow> roomHeap (setLastSeen a k t s) b = roomHeap s b"
  "lastCleanup (roomHeap (setLastSeen a k t s) b) = lastCleanup (roomHeap s b)"
  by (auto simp: setLastSeen_def ws_send_def split: option.splits)

lemma del_simps [simp]:
  "now (deleteClient a r u s) = now s"
  "sockets (deleteClient a r u s) = sockets s"
  "b \<noteq> a \<Longrightarrow> roomHeap (deleteClient a r u s) b = roomHeap s b"
  "lastCleanup (roomHeap (deleteClient a r u s) b) = lastCleanup (roomHeap s b)"
  "now (clearPing r u s) = now s"
  "sockets (clearPing r u s) = sockets s"
  "rooms (clearPing r u s) = rooms s"
  "roomHeap (clearPing r u s) = roomHeap s"
  by (auto simp: deleteClient_def clearPing_def Let_def split: option.splits)

lemma reach_now: "reach roomId a U s s' \<Longrightarrow> now s' = now s"
  by (induction rule: reach.induct) auto

lemma sockets_ws_send:
  "readyState (sockets (ws_send w f s) v) = readyState (sockets s v)"
  "sendThrows (sockets (ws_send w f s) v) = sendThrows (sockets s v)"
  "listeners (sockets (ws_send w f s) v) = listeners (sockets s v)"
  "sent (sockets (ws_send w f s) v) = (if v = w then sent (sockets s v) @ [f] else sent (sockets s v))"
  by (auto simp: ws_send_def)

lemma reach_sockets:
  "reach roomId a U s s' \<Longrightarrow>
     readyState (sockets s' w) = readyState (sockets s w) \<and>
     sendThrows (sockets s' w) = sendThrows (sockets s w) \<and>
     listeners (sockets s' w) = listeners (sockets s w) \<and>
     (\<exists>ys. sent (sockets s' w) = sent (sockets s w) @ ys)"
  by (induction rule: reach.induct) (auto simp: sockets_ws_send)

lemma reach_heap_other: "reach roomId a U s s' \<Longrightarrow> b \<noteq> a \<Longrightarrow> roomHeap s' b = roomHeap s b"
  by (induction rule: reach.induct) auto

lemma reach_lastCleanup: "reach roomId a U s s' \<Longrightarrow> lastCleanup (roomHeap s' b) = lastCleanup (roomHeap s b)"
  by (induction rule: reach.induct) auto

lemma clients_setLastSeen:
  "map_of (clients (roomHeap (setLastSeen a k t s) b)) k' =
     (if b = a \<and> k' = k then map_option (\<lambda>c. c\<lparr>client_lastSeen := t\<rparr>) (map_of (clients (roomHeap s a)) k)
      else map_of (clients (roomHeap s b)) k')"
  by (auto simp: setLastSeen_def update_conv' split: option.splits)

lemma delete_absent: "map_of xs u = None \<Longrightarrow> AList.delete u xs = xs"
  by (induction xs) (auto split: if_splits)

lemma clients_deleteClient_list:
  "clients (roomHeap (deleteClient a r u s) b) =
     (if b = a then AList.delete u (clients (roomHeap s a)) else clients (roomHeap s b))"
  by (auto simp: deleteClient_def Let_def delete_absent)

lemma clients_deleteClient:
  "map_of (clients (roomHeap (deleteClient a r u s) b)) k =
     (if b = a \<and> k = u then None else map_of (clients (roomHeap s b)) k)"
  by (simp add: clients_deleteClient_list delete_conv')

lemma reach_clients:
  "reach roomId a U s s' \<Longrightarrow> map_of (clients (roomHeap s' b)) k = Some c' \<Longrightarrow>
     \<exists>c. map_of (clients (roomHeap s b)) k = Some c \<and> client_ws c' = client_ws c \<and>
         client_userId c' = client_userId c \<and>
         (client_lastSeen c' = client_lastSeen c \<or> client_lastSeen c' = now s)"
proof (induction arbitrary: c' rule: reach.induct)
  case reach_refl
  then show ?case by simp
next
  case (reach_send s1 k0 c f)
  then show ?case
    by (auto simp: clients_setLastSeen reach_now split: if_splits)
next
  case (reach_del s1 u)
  then show ?case
    by (auto simp: clients_deleteClient split: if_splits)
qed

lemma reach_keeps:
  "reach roomId a U s s' \<Longrightarrow> k \<notin> U \<Longrightarrow> map_of (clients (roomHeap s b)) k \<noteq> None \<Longrightarrow>
     map_of (clients (roomHeap s' b)) k \<noteq> None"
proof (induction rule: reach.induct)
  case reach_refl
  then show ?case by simp
next
  case (reach_send s1 k0 c f)
  then show ?case by (auto simp: clients_setLastSeen)
next
  case (reach_del s1 u)
  then show ?case by (auto simp: clients_deleteClient)
qed

lemma clients_nonempty_setLastSeen:
  "(clients (roomHeap (setLastSeen a k t s) b) = []) = (clients (roomHeap s b) = [])"
  by (cases "clients (roomHeap s a)") (auto simp: setLastSeen_def split: option.splits)

lemma reach_rooms:
  "reach roomId a U s s' \<Longrightarrow>
     (rooms s' = rooms s \<and> (clients (roomHeap s' a) = [] \<longrightarrow> clients (roomHeap s a) = [])) \<or>
     (rooms s' = AList.delete roomId (rooms s) \<and> clients (roomHeap s' a) = [])"
proof (induction rule: reach.induct)
  case reach_refl
  then show ?case by simp
next
  case (reach_send s1 k c f)
  then show ?case by (auto simp: clients_nonempty_setLastSeen)
next
  case (reach_del s1 u)
  then show ?case
    by (auto simp: deleteClient_def Let_def)
qed

lemma reach_trans:
  assumes "reach roomId a U s1 s2" and "reach roomId a U s s1"
  shows "reach roomId a U s s2"
  using assms
proof (induction rule: reach.induct)
  case reach_refl
  then show ?case by simp
next
  case (reach_send s' k c f)
  then show ?case by (auto intro: reach.reach_send)
next
  case (reach_del s' u)
  then show ?case by (auto intro: reach.reach_del)
qed

lemma reach_mono:
  assumes "reach roomId a U s s'" and "U \<subseteq> V"
  shows "reach roomId a V s s'"
  using assms
proof (induction rule: reach.induct)
  case reach_refl
  then show ?case by (simp add: reach.reach_refl)
next
  case (reach_send s' k c f)
  then show ?case by (auto intro: reach.reach_send)
next
  case (reach_del s' u)
  then show ?case by (auto intro: reach.reach_del)
qed

lemma reach_throwerIds:
  assumes "reach roomId a U s s'"
  shows "throwerIds s' a \<subseteq> throwerIds s a"
proof
  fix u assume "u \<in> throwerIds s' a"
  then obtain k c' where c': "map_of (clients (roomHeap s' a)) k = Some c'"
      "readyState (sockets s' (client_ws c')) = OPEN" "sendThrows (sockets s' (client_ws c'))"
      "u = client_userId c'"
    by (auto simp: throwerIds_def)
  from reach_clients[OF assms c'(1)] obtain c where
    c: "map_of (clients (roomHeap s a)) k = Some c" "client_ws c' = client_ws c"
       "client_userId c' = client_userId c" by blast
  with c' reach_sockets[OF assms, of "client_ws c"] show "u \<in> throwerIds s a"
    by (auto simp: throwerIds_def)
qed

lemma reach_getRoom:
  assumes "reach roomId a U s s'" and "getRoom s roomId = Some a"
  shows "getRoom s' roomId = Some a \<or> (getRoom s' roomId = None \<and> clients (roomHeap s' a) = [])"
  using reach_rooms[OF assms(1)] assms(2)
  by (auto simp: getRoom_def delete_conv')

lemma forEach_send_reach:
  assumes IH: "\<And>u s s'. getRoom s roomId = Some a \<Longrightarrow> removeClient n roomId u s = Some s' \<Longrightarrow>
                 reach roomId a (insert u (throwerIds s a)) s s'"
  shows "getRoom s0 roomId = Some a \<Longrightarrow> reach roomId a U s0 s \<Longrightarrow> throwerIds s0 a \<subseteq> U \<Longrightarrow>
         forEach_send (removeClient n roomId) a f excl ks s = Some s' \<Longrightarrow>
         reach roomId a U s0 s'"
proof (induction ks arbitrary: s)
  case Nil
  then show ?case by simp
next
  case (Cons k ks)
  show ?case
  proof (cases "map_of (clients (roomHeap s a)) k")
    case None
    with Cons show ?thesis by simp
  next
    case (Some c)
    show ?thesis
    proof (cases "notExcluded excl c \<and> readyState (sockets s (client_ws c)) = OPEN")
      case False
      with Some Cons show ?thesis by auto
    next
      case True
      show ?thesis
      proof (cases "sendThrows (sockets s (client_ws c))")
        case False
        with True Some Cons.prems have
          "forEach_send (removeClient n roomId) a f excl ks
             (setLastSeen a k (now s) (ws_send (client_ws c) f s)) = Some s'"
          by simp
        moreover have "reach roomId a U s0 (setLastSeen a k (now s) (ws_send (client_ws c) f s))"
          using Cons.prems(2) Some True False by (auto intro: reach.reach_send)
        ultimately show ?thesis using Cons.IH Cons.prems(1,3) by blast
      next
        case thr: True
        with True Some Cons.prems obtain s1 where
          s1: "removeClient n roomId (client_userId c) s = Some s1"
              "forEach_send (removeClient n roomId) a f excl ks s1 = Some s'"
          by (auto split: option.splits)
        have uin: "client_userId c \<in> throwerIds s a"
          using Some True thr by (auto simp: throwerIds_def)
        have sub: "throwerIds s a \<subseteq> U"
          using reach_throwerIds[OF Cons.prems(2)] Cons.prems(3) by blast
        have "reach roomId a U s s1"
        proof (cases "getRoom s roomId")
          case None
          with s1(1) have "s1 = s" by (cases n) auto
          then show ?thesis by (simp add: reach.reach_refl)
        next
          case (Some b)
          with reach_getRoom[OF Cons.prems(2) Cons.prems(1)] have "getRoom s roomId = Some a" by simp
          from IH[OF this s1(1)] have "reach roomId a (insert (client_userId c) (throwerIds s a)) s s1" .
          then show ?thesis using uin sub by (auto intro: reach_mono)
        qed
        then have "reach roomId a U s0 s1" using Cons.prems(2) by (rule reach_trans)
        then show ?thesis using Cons.IH Cons.prems(1,3) s1(2) by blast
      qed
    qed
  qed
qed

lemma removeClient_reach:
  "getRoom s roomId = Some a \<Longrightarrow> removeClient n roomId u s = Some s' \<Longrightarrow>
     reach roomId a (insert u (throwerIds s a)) s s'"
proof (induction n arbitrary: u s s')
  case 0
  then show ?case by simp
next
  case (Suc n)
  from Suc.prems obtain s1 where
    s1: "forEach_send (removeClient n roomId) a
           (JSON_stringify \<lparr>msg_type = user_left, msg_userId = u, msg_timestamp = now s,
              msg_particles = None, msg_color = None\<rparr>) (Some u)
           (map fst (clients (roomHeap s a))) s = Some s1"
    and s': "s' = deleteClient a roomId u (clearPing roomId u s1)"
    by (auto simp: broadcastWith_def split: option.splits)
  have "reach roomId a (insert u (throwerIds s a)) s s1"
    by (rule forEach_send_reach[OF Suc.IH Suc.prems(1) reach.reach_refl _ s1]) auto
  then show ?case unfolding s' by (rule reach.reach_del) simp
qed

lemma broadcastToRoom_reach:
  "getRoom s roomId = Some a \<Longrightarrow> broadcastToRoom n roomId m excl s = Some s' \<Longrightarrow>
     reach roomId a (throwerIds s a) s s'"
  unfolding broadcastToRoom_def broadcastWith_def
  by (auto intro: forEach_send_reach[OF removeClient_reach _ reach.reach_refl])

section \<open>Two clients whose sends raise\<close>

lemma thrower_deliver:
  assumes "map_of (clients (roomHeap s a)) k = Some c" "\<not> sendThrows (sockets s (client_ws c))"
  shows "thrower (setLastSeen a k t (ws_send w f s)) a x = thrower s a x"
  using assms
  by (auto simp: thrower_def clients_setLastSeen sockets_ws_send split: option.splits)

lemma forEach_send_diverges:
  assumes IH: "\<And>u s. getRoom s roomId = Some a \<Longrightarrow> thrower s a b \<Longrightarrow> thrower s a c \<Longrightarrow>
                 removeClient n roomId u s = None"
    and bc: "b \<noteq> c"
  shows "getRoom s roomId = Some a \<Longrightarrow> thrower s a b \<Longrightarrow> thrower s a c \<Longrightarrow>
         x \<in> set ks \<Longrightarrow> thrower s a x \<Longrightarrow>
         (case excl of None \<Rightarrow> True | Some e \<Rightarrow> e = [] \<or> x \<noteq> e) \<Longrightarrow>
         forEach_send (removeClient n roomId) a f excl ks s = None"
proof (induction ks arbitrary: s)
  case Nil
  then show ?case by simp
next
  case (Cons k ks)
  from Cons.prems(5) obtain cx where cx: "map_of (clients (roomHeap s a)) x = Some cx"
      "client_userId cx = x" "readyState (sockets s (client_ws cx)) = OPEN"
      "sendThrows (sockets s (client_ws cx))"
    by (auto simp: thrower_def split: option.splits)
  have nx: "notExcluded excl cx" using Cons.prems(6) cx(2)
    by (auto simp: notExcluded_def split: option.splits)
  show ?case
  proof (cases "map_of (clients (roomHeap s a)) k")
    case None
    with cx have "x \<noteq> k" by auto
    with None Cons show ?thesis by auto
  next
    case (Some c0)
    show ?thesis
    proof (cases "notExcluded excl c0 \<and> readyState (sockets s (client_ws c0)) = OPEN")
      case False
      with Some cx nx have "x \<noteq> k" by auto
      with False Some Cons show ?thesis by auto
    next
      case True
      show ?thesis
      proof (cases "sendThrows (sockets s (client_ws c0))")
        case True
        with \<open>notExcluded excl c0 \<and> _\<close> Some IH[OF Cons.prems(1,2,3)] show ?thesis by simp
      next
        case False
        with Some cx have xk: "x \<noteq> k" by auto
        let ?s1 = "setLastSeen a k (now s) (ws_send (client_ws c0) f s)"
        have "forEach_send (removeClient n roomId) a f excl ks ?s1 = None"
          using Cons.prems xk
          by (intro Cons.IH) (auto simp: thrower_deliver[OF Some False] getRoom_def)
        with True False Some show ?thesis by simp
      qed
    qed
  qed
qed

lemma thrower_key: "thrower s a k \<Longrightarrow> k \<in> set (map fst (clients (roomHeap s a)))"
  by (auto simp: thrower_def split: option.splits dest: map_of_SomeD intro: rev_image_eqI)

lemma two_throwers_removeClient:
  "getRoom s roomId = Some a \<Longrightarrow> thrower s a b \<Longrightarrow> thrower s a c \<Longrightarrow> b \<noteq> c \<Longrightarrow>
     removeClient n roomId u s = None"
proof (induction n arbitrary: u s)
  case 0
  then show ?case by simp
next
  case (Suc n)
  obtain x where x: "x = b \<or> x = c" "x \<noteq> u" using Suc.prems(4) by metis
  then have tx: "thrower s a x" using Suc.prems by auto
  have "forEach_send (removeClient n roomId) a
          (JSON_stringify \<lparr>msg_type = user_left, msg_userId = u, msg_timestamp = now s,
              msg_particles = None, msg_color = None\<rparr>) (Some u)
          (map fst (clients (roomHeap s a))) s = None"
    by (rule forEach_send_diverges[OF Suc.IH Suc.prems(4) Suc.prems(1,2,3) thrower_key[OF tx] tx])
       (use x Suc.prems(4) in auto)
  with Suc.prems(1) show ?case by (simp add: broadcastWith_def)
qed

lemma two_throwers_broadcast:
  assumes "getRoom s roomId = Some a" "thrower s a b" "thrower s a c" "b \<noteq> c"
  shows "broadcastToRoom n roomId m excl s = None"
proof -
  obtain x where x: "x = b \<or> x = c" "(case excl of None \<Rightarrow> True | Some e \<Rightarrow> e = [] \<or> x \<noteq> e)"
    using assms(4) by (cases excl) auto
  then have tx: "thrower s a x" using assms by auto
  have "forEach_send (removeClient n roomId) a (JSON_stringify m) excl
          (map fst (clients (roomHeap s a))) s = None"
    by (rule forEach_send_diverges[OF two_throwers_removeClient assms(4) assms(1,2,3) thrower_key[OF tx] tx x(2)])
       (use assms(4) in auto)
  with assms(1) show ?thesis by (simp add: broadcastToRoom_def broadcastWith_def)
qed


section \<open>No registered room is left empty\<close>

lemma set_delete_subset: "set (AList.delete k xs) \<subseteq> set xs"
  by (auto simp: AList.delete_eq)

lemma distinct_snd_delete: "distinct (map snd xs) \<Longrightarrow> distinct (map snd (AList.delete k xs))"
  by (simp add: AList.delete_eq distinct_map_filter)

lemma delete_other_snd:
  assumes "distinct (map snd xs)" "map_of xs k = Some a" "(r, b) \<in> set (AList.delete k xs)"
  shows "b \<noteq> a"
proof
  assume "b = a"
  from assms(3) have rk: "r \<noteq> k" and rin: "(r, a) \<in> set xs"
    using \<open>b = a\<close> by (auto simp: AList.delete_eq)
  from assms(2) have kin: "(k, a) \<in> set xs" by (rule map_of_SomeD)
  from assms(1) have "inj_on snd (set xs)" by (simp add: distinct_map)
  from inj_onD[OF this _ rin kin] have "(r, a) = (k, a)" by simp
  with rk show False by simp
qed

lemma reach_regInv:
  assumes "reach roomId a U s s'" "getRoom s roomId = Some a" "regInv s"
  shows "regInv s'"
proof -
  from reach_rooms[OF assms(1)] show ?thesis
  proof
    assume h: "rooms s' = rooms s \<and> (clients (roomHeap s' a) = [] \<longrightarrow> clients (roomHeap s a) = [])"
    have "noEmptyRoom s'" unfolding noEmptyRoom_def
    proof (clarify)
      fix r b assume rb: "(r, b) \<in> set (rooms s')" and e: "clients (roomHeap s' b) = []"
      from rb h assms(3) have ne: "clients (roomHeap s b) \<noteq> []"
        by (auto simp: regInv_def noEmptyRoom_def)
      show False
      proof (cases "b = a")
        case True with h e ne show ?thesis by simp
      next
        case False with reach_heap_other[OF assms(1) False] e ne show ?thesis by simp
      qed
    qed
    with h assms(3) show ?thesis by (simp add: regInv_def)
  next
    assume h: "rooms s' = AList.delete roomId (rooms s) \<and> clients (roomHeap s' a) = []"
    have "noEmptyRoom s'" unfolding noEmptyRoom_def
    proof (clarify)
      fix r b assume rb: "(r, b) \<in> set (rooms s')" and e: "clients (roomHeap s' b) = []"
      from rb h have rb': "(r, b) \<in> set (AList.delete roomId (rooms s))" by simp
      with assms(2,3) have "b \<noteq> a"
        by (auto simp: regInv_def getRoom_def dest: delete_other_snd)
      from reach_heap_other[OF assms(1) this] e have "clients (roomHeap s b) = []" by simp
      moreover from rb' have "(r, b) \<in> set (rooms s)" using set_delete_subset by fastforce
      ultimately show False using assms(3) by (auto simp: regInv_def noEmptyRoom_def)
    qed
    with h assms(3) show ?thesis by (simp add: regInv_def distinct_snd_delete)
  qed
qed

lemma removeClient_unregistered:
  "getRoom s roomId = None \<Longrightarrow> removeClient n roomId u s = Some s' \<Longrightarrow> s' = s"
  by (cases n) auto

lemma removeClient_regInv:
  assumes "removeClient n roomId u s = Some s'" "regInv s"
  shows "regInv s'"
proof (cases "getRoom s roomId")
  case None
  with assms removeClient_unregistered show ?thesis by blast
next
  case (Some a)
  from removeClient_reach[OF Some assms(1)] Some assms(2) show ?thesis by (rule reach_regInv)
qed

lemma regInv_ws_send: "regInv (ws_send w f s) = regInv s"
  by (simp add: regInv_def noEmptyRoom_def)

lemma pingClient_regInv:
  assumes "pingClient n roomId u s = Some s'" "regInv s"
  shows "regInv s'"
  using assms
  by (auto simp: pingClient_def regInv_ws_send split: option.splits if_splits
           dest: removeClient_regInv)

lemma forEach_evict_regInv:
  "forEach_evict n t roomId a ks s = Some s' \<Longrightarrow> regInv s \<Longrightarrow> regInv s'"
proof (induction ks arbitrary: s)
  case Nil
  then show ?case by simp
next
  case (Cons k ks)
  then show ?case
    by (auto split: option.splits if_splits dest: removeClient_regInv)
qed

lemma regInv_stamp:
  "regInv (s\<lparr>roomHeap := (roomHeap s)(a := (roomHeap s a)\<lparr>lastCleanup := t\<rparr>)\<rparr>) = regInv s"
  by (auto simp: regInv_def noEmptyRoom_def)

lemma forEach_room_regInv:
  "forEach_room n t rs s = Some s' \<Longrightarrow> regInv s \<Longrightarrow> regInv s'"
proof (induction rs arbitrary: s)
  case Nil
  then show ?case by simp
next
  case (Cons r rs)
  show ?case
  proof (cases "map_of (rooms s) r")
    case None
    with Cons show ?thesis by simp
  next
    case (Some a)
    show ?thesis
    proof (cases "t - lastCleanup (roomHeap s a) < CLEANUP_INTERVAL")
      case True
      with Some Cons show ?thesis by simp
    next
      case False
      with Some Cons.prems obtain s1 where
        s1: "forEach_evict n t r a (map fst (clients (roomHeap s a))) s = Some s1"
        and rest: "forEach_room n t rs
           (s1\<lparr>roomHeap := (roomHeap s1)(a := (roomHeap s1 a)\<lparr>lastCleanup := t\<rparr>)\<rparr>) = Some s'"
        by (auto split: option.splits)
      from forEach_evict_regInv[OF s1 Cons.prems(2)] have "regInv s1" .
      then show ?thesis using Cons.IH[OF rest] by (simp add: regInv_stamp)
    qed
  qed
qed

lemma closeListeners_regInv:
  "closeListeners n ls s = Some s' \<Longrightarrow> regInv s \<Longrightarrow> regInv s'"
proof (induction ls arbitrary: s)
  case Nil
  then show ?case by simp
next
  case (Cons l ls)
  then show ?case
    by (cases l) (auto split: option.splits dest: removeClient_regInv)
qed

lemma regInv_sockets: "regInv (s\<lparr>sockets := so\<rparr>) = regInv s"
  by (simp add: regInv_def noEmptyRoom_def)

lemma ws_emit_close_regInv:
  assumes "ws_emit_close n conn s = Some s'" "regInv s"
  shows "regInv s'"
  using assms
  by (auto simp: ws_emit_close_def Let_def regInv_sockets split: option.splits if_splits
           dest!: removeClient_regInv closeListeners_regInv)

lemma last_member_removed:
  assumes "getRoom s roomId = Some a" "clients (roomHeap s a) = [(userId, c)]"
    "client_userId c = userId \<and> userId \<noteq> [] \<or> readyState (sockets s (client_ws c)) \<noteq> OPEN
       \<or> \<not> sendThrows (sockets s (client_ws c))"
  shows "\<exists>s'. removeClient (Suc n) roomId userId s = Some s' \<and> getRoom s' roomId = None"
proof -
  define f where "f = JSON_stringify \<lparr>msg_type = user_left, msg_userId = userId,
    msg_timestamp = now s, msg_particles = None, msg_color = None\<rparr>"
  have "\<exists>s1. forEach_send (removeClient n roomId) a f (Some userId) [userId] s = Some s1 \<and>
          rooms s1 = rooms s \<and> (\<exists>c1. clients (roomHeap s1 a) = [(userId, c1)])"
    using assms(2,3) by (auto simp: notExcluded_def setLastSeen_def ws_send_def)
  then obtain s1 c1 where s1:
    "forEach_send (removeClient n roomId) a f (Some userId) [userId] s = Some s1"
    "rooms s1 = rooms s" "clients (roomHeap s1 a) = [(userId, c1)]"
    by blast
  have run: "removeClient (Suc n) roomId userId s =
      Some (deleteClient a roomId userId (clearPing roomId userId s1))"
    using assms(1,2) s1(1) by (simp add: broadcastWith_def f_def)
  have "getRoom (deleteClient a roomId userId (clearPing roomId userId s1)) roomId = None"
    using s1(2,3) by (simp add: deleteClient_def getRoom_def delete_conv')
  with run show ?thesis by simp
qed

lemma io_disconnect_inv:
  assumes "noEmptyRoom_io s"
    "\<forall>(r, b) \<in> set (rooms_io s). b = io_room c \<longrightarrow> r = io_roomId c"
  shows "noEmptyRoom_io (io_disconnect c s)"
  using assms
  by (auto simp: io_disconnect_def noEmptyRoom_io_def Let_def AList.delete_eq split: if_splits)

lemma io_last_member:
  assumes "map_of (rooms_io s) (io_roomId c) = Some (io_room c)"
    "map_of (socketToUser s) (io_socket c) = Some uid" "uid \<noteq> []"
    "map fst (users (roomHeap_io s (io_room c))) = [uid]"
  shows "map_of (rooms_io (io_disconnect c s)) (io_roomId c) = None"
  using assms
  by (cases "users (roomHeap_io s (io_room c))")
     (auto simp: io_disconnect_def falsy_def Let_def delete_conv')

section \<open>The cleanup sweep\<close>

lemma noneStale_iff:
  "noneStale t room \<longleftrightarrow>
     (\<forall>k c. map_of (clients room) k = Some c \<longrightarrow> t - client_lastSeen c \<le> CLIENT_TIMEOUT)"
  by (auto simp: noneStale_def dest: map_of_SomeD)

lemma ages_refl: "ages s s"
  by (simp add: ages_def)

lemma ages_trans:
  assumes "ages s s1" "ages s1 s2"
  shows "ages s s2"
proof -
  have n1: "now s1 = now s" and n2: "now s2 = now s1" using assms by (auto simp: ages_def)
  have cl: "\<exists>c. map_of (clients (roomHeap s b)) k = Some c \<and>
             (client_lastSeen c2 = client_lastSeen c \<or> client_lastSeen c2 = now s)"
    if h: "map_of (clients (roomHeap s2 b)) k = Some c2" for b k c2
  proof -
    from assms(2) h obtain c1 where c1: "map_of (clients (roomHeap s1 b)) k = Some c1"
      "client_lastSeen c2 = client_lastSeen c1 \<or> client_lastSeen c2 = now s1"
      unfolding ages_def by blast
    from assms(1) c1(1) obtain c where c: "map_of (clients (roomHeap s b)) k = Some c"
      "client_lastSeen c1 = client_lastSeen c \<or> client_lastSeen c1 = now s"
      unfolding ages_def by blast
    from c1(2) c n1 show ?thesis by auto
  qed
  have rg: "map_of (rooms s) r = Some b" if "map_of (rooms s2) r = Some b" for r b
    using that assms unfolding ages_def by blast
  show ?thesis unfolding ages_def using n1 n2 cl rg by simp
qed

lemma reach_registry:
  assumes "reach roomId a U s s'" "map_of (rooms s') r = Some b"
  shows "map_of (rooms s) r = Some b"
  using reach_rooms[OF assms(1)] assms(2)
  by (auto simp: delete_conv' split: if_splits)

lemma reach_ages: "reach roomId a U s s' \<Longrightarrow> ages s s'"
  unfolding ages_def
  by (blast dest: reach_now reach_clients reach_registry)

lemma removeClient_ages: "removeClient n roomId u s = Some s' \<Longrightarrow> ages s s'"
  by (cases "getRoom s roomId")
     (auto dest: removeClient_unregistered removeClient_reach reach_ages simp: ages_refl)

lemma removeClient_target_gone:
  assumes "getRoom s roomId = Some a" "removeClient n roomId u s = Some s'"
  shows "map_of (clients (roomHeap s' a)) u = None"
proof (cases n)
  case 0
  with assms show ?thesis by simp
next
  case (Suc m)
  with assms show ?thesis
    by (auto simp: clients_deleteClient split: option.splits)
qed

lemma forEach_evict_ages: "forEach_evict n t roomId a ks s = Some s' \<Longrightarrow> ages s s'"
proof (induction ks arbitrary: s)
  case Nil
  then show ?case by (simp add: ages_refl)
next
  case (Cons k ks)
  then show ?case
    by (auto split: option.splits if_splits dest!: removeClient_ages intro: ages_trans)
qed

lemma ages_stamp:
  "ages s (s\<lparr>roomHeap := (roomHeap s)(a := (roomHeap s a)\<lparr>lastCleanup := t\<rparr>)\<rparr>)"
  by (auto simp: ages_def)

lemma forEach_room_ages: "forEach_room n t rs s = Some s' \<Longrightarrow> ages s s'"
proof (induction rs arbitrary: s)
  case Nil
  then show ?case by (simp add: ages_refl)
next
  case (Cons r rs)
  show ?case
  proof (cases "map_of (rooms s) r")
    case None
    with Cons show ?thesis by simp
  next
    case (Some a)
    show ?thesis
    proof (cases "t - lastCleanup (roomHeap s a) < CLEANUP_INTERVAL")
      case True
      with Some Cons show ?thesis by simp
    next
      case False
      with Some Cons.prems obtain s1 where
        s1: "forEach_evict n t r a (map fst (clients (roomHeap s a))) s = Some s1"
        and rest: "forEach_room n t rs
           (s1\<lparr>roomHeap := (roomHeap s1)(a := (roomHeap s1 a)\<lparr>lastCleanup := t\<rparr>)\<rparr>) = Some s'"
        by (auto split: option.splits)
      from forEach_evict_ages[OF s1] ages_stamp Cons.IH[OF rest] show ?thesis
        by (blast intro: ages_trans)
    qed
  qed
qed

lemma ages_noneStale:
  assumes "ages s s'" "noneStale (now s) (roomHeap s a)"
  shows "noneStale (now s) (roomHeap s' a)"
  unfolding noneStale_iff
proof (intro allI impI)
  fix k c' assume "map_of (clients (roomHeap s' a)) k = Some c'"
  with assms(1) obtain c where "map_of (clients (roomHeap s a)) k = Some c"
    "client_lastSeen c' = client_lastSeen c \<or> client_lastSeen c' = now s"
    unfolding ages_def by blast
  with assms(2) show "now s - client_lastSeen c' \<le> CLIENT_TIMEOUT"
    by (auto simp: noneStale_iff CLIENT_TIMEOUT_def)
qed

lemma forEach_evict_post:
  "forEach_evict n (now s) roomId a ks s = Some s' \<Longrightarrow>
   getRoom s roomId = Some a \<or> clients (roomHeap s a) = [] \<Longrightarrow>
   (\<forall>k c. map_of (clients (roomHeap s a)) k = Some c \<longrightarrow>
      k \<in> set ks \<or> now s - client_lastSeen c \<le> CLIENT_TIMEOUT) \<Longrightarrow>
   noneStale (now s) (roomHeap s' a)"
proof (induction ks arbitrary: s)
  case Nil
  then show ?case by (simp add: noneStale_iff)
next
  case (Cons k ks)
  show ?case
  proof (cases "map_of (clients (roomHeap s a)) k")
    case None
    have "noneStale (now s) (roomHeap s' a)"
    proof (rule Cons.IH)
      show "forEach_evict n (now s) roomId a ks s = Some s'" using None Cons.prems(1) by simp
      show "getRoom s roomId = Some a \<or> clients (roomHeap s a) = []" by (rule Cons.prems(2))
      show "\<forall>k c. map_of (clients (roomHeap s a)) k = Some c \<longrightarrow>
              k \<in> set ks \<or> now s - client_lastSeen c \<le> CLIENT_TIMEOUT"
      proof (intro allI impI)
        fix k' c assume h: "map_of (clients (roomHeap s a)) k' = Some c"
        with None have "k' \<noteq> k" by auto
        moreover from Cons.prems(3) h
        have "k' \<in> set (k # ks) \<or> now s - client_lastSeen c \<le> CLIENT_TIMEOUT" by blast
        ultimately show "k' \<in> set ks \<or> now s - client_lastSeen c \<le> CLIENT_TIMEOUT" by auto
      qed
    qed
    then show ?thesis .
  next
    case (Some c0)
    show ?thesis
    proof (cases "now s - client_lastSeen c0 > CLIENT_TIMEOUT")
      case False
      have "noneStale (now s) (roomHeap s' a)"
      proof (rule Cons.IH)
        show "forEach_evict n (now s) roomId a ks s = Some s'"
          using Some False Cons.prems(1) by simp
        show "getRoom s roomId = Some a \<or> clients (roomHeap s a) = []" by (rule Cons.prems(2))
        show "\<forall>k c. map_of (clients (roomHeap s a)) k = Some c \<longrightarrow>
                k \<in> set ks \<or> now s - client_lastSeen c \<le> CLIENT_TIMEOUT"
        proof (intro allI impI)
          fix k' c assume h: "map_of (clients (roomHeap s a)) k' = Some c"
          from Cons.prems(3) h
          have "k' \<in> set (k # ks) \<or> now s - client_lastSeen c \<le> CLIENT_TIMEOUT" by blast
          moreover have "now s - client_lastSeen c \<le> CLIENT_TIMEOUT" if "k' = k"
            using that h Some False by simp
          ultimately show "k' \<in> set ks \<or> now s - client_lastSeen c \<le> CLIENT_TIMEOUT" by auto
        qed
      qed
      then show ?thesis .
    next
      case True
      with Some Cons.prems(1) obtain s1 where
        s1: "removeClient n roomId k s = Some s1"
        and rest: "forEach_evict n (now s) roomId a ks s1 = Some s'"
        by (auto split: option.splits)
      from Some Cons.prems(2) have reg: "getRoom s roomId = Some a" by auto
      note r = removeClient_reach[OF reg s1]
      have n1: "now s1 = now s" by (rule reach_now[OF r])
      have "noneStale (now s1) (roomHeap s' a)"
      proof (rule Cons.IH)
        show "forEach_evict n (now s1) roomId a ks s1 = Some s'" using rest n1 by simp
        show "getRoom s1 roomId = Some a \<or> clients (roomHeap s1 a) = []"
          using reach_getRoom[OF r reg] by auto
        show "\<forall>k c. map_of (clients (roomHeap s1 a)) k = Some c \<longrightarrow>
                k \<in> set ks \<or> now s1 - client_lastSeen c \<le> CLIENT_TIMEOUT"
        proof (intro allI impI)
          fix k' c' assume h: "map_of (clients (roomHeap s1 a)) k' = Some c'"
          with removeClient_target_gone[OF reg s1] have "k' \<noteq> k" by auto
          from reach_clients[OF r h] obtain c where
            c: "map_of (clients (roomHeap s a)) k' = Some c"
               "client_lastSeen c' = client_lastSeen c \<or> client_lastSeen c' = now s" by blast
          from Cons.prems(3) c(1)
          have "k' \<in> set (k # ks) \<or> now s - client_lastSeen c \<le> CLIENT_TIMEOUT" by blast
          with \<open>k' \<noteq> k\<close>
          have "k' \<in> set ks \<or> now s - client_lastSeen c \<le> CLIENT_TIMEOUT" by auto
          with c(2) n1 show "k' \<in> set ks \<or> now s1 - client_lastSeen c' \<le> CLIENT_TIMEOUT"
            by (auto simp: CLIENT_TIMEOUT_def)
        qed
      qed
      with n1 show ?thesis by simp
    qed
  qed
qed

lemma removeClient_lastCleanup:
  "removeClient n roomId u s = Some s' \<Longrightarrow>
     lastCleanup (roomHeap s' b) = lastCleanup (roomHeap s b)"
  by (cases "getRoom s roomId")
     (auto dest: removeClient_unregistered removeClient_reach reach_lastCleanup)

lemma forEach_evict_lastCleanup:
  "forEach_evict n t roomId a ks s = Some s' \<Longrightarrow>
     lastCleanup (roomHeap s' b) = lastCleanup (roomHeap s b)"
proof (induction ks arbitrary: s)
  case Nil
  then show ?case by simp
next
  case (Cons k ks)
  then show ?case
    by (auto split: option.splits if_splits dest!: removeClient_lastCleanup[where b = b])
qed

lemma ages_now: "ages s s' \<Longrightarrow> now s' = now s"
  by (simp add: ages_def)

lemma ages_registry: "ages s s' \<Longrightarrow> map_of (rooms s') r = Some b \<Longrightarrow> map_of (rooms s) r = Some b"
  by (simp add: ages_def)

lemma forEach_room_post:
  "forEach_room n (now s) rs s = Some s' \<Longrightarrow> map_of (rooms s') r = Some a \<Longrightarrow> r \<in> set rs \<Longrightarrow>
   CLEANUP_INTERVAL \<le> now s - lastCleanup (roomHeap s a) \<or> noneStale (now s) (roomHeap s a) \<Longrightarrow>
   noneStale (now s) (roomHeap s' a)"
proof (induction rs arbitrary: s)
  case Nil
  then show ?case by simp
next
  case (Cons r0 rs)
  have reg: "map_of (rooms s) r = Some a"
    using forEach_room_ages[OF Cons.prems(1)] Cons.prems(2) by (rule ages_registry)
  show ?case
  proof (cases "map_of (rooms s) r0")
    case None
    with reg have "r \<noteq> r0" by auto
    with Cons.prems(3) have "r \<in> set rs" by simp
    moreover from None Cons.prems(1) have "forEach_room n (now s) rs s = Some s'" by simp
    ultimately show ?thesis using Cons.IH Cons.prems(2,4) by blast
  next
    case (Some a0)
    show ?thesis
    proof (cases "now s - lastCleanup (roomHeap s a0) < CLEANUP_INTERVAL")
      case True
      with Some Cons.prems(1) have rest: "forEach_room n (now s) rs s = Some s'" by simp
      show ?thesis
      proof (cases "r \<in> set rs")
        case True
        with rest Cons.IH Cons.prems(2,4) show ?thesis by blast
      next
        case False
        with Cons.prems(3) have "r = r0" by simp
        with reg Some have "a = a0" by simp
        with True Cons.prems(4) have "noneStale (now s) (roomHeap s a)" by auto
        with forEach_room_ages[OF rest] show ?thesis by (rule ages_noneStale)
      qed
    next
      case False
      let ?st = "\<lambda>s1. s1\<lparr>roomHeap := (roomHeap s1)(a0 := (roomHeap s1 a0)\<lparr>lastCleanup := now s\<rparr>)\<rparr>"
      from False Some Cons.prems(1) obtain s1 where
        s1: "forEach_evict n (now s) r0 a0 (map fst (clients (roomHeap s a0))) s = Some s1"
        and rest: "forEach_room n (now s) rs (?st s1) = Some s'"
        by (auto split: option.splits)
      have a1: "ages s s1" by (rule forEach_evict_ages[OF s1])
      have n2: "now (?st s1) = now s" using ages_now[OF a1] by simp
      have a2: "ages s (?st s1)" using a1 ages_stamp by (rule ages_trans)
      have a3: "ages (?st s1) s'" using rest by (rule forEach_room_ages)
      show ?thesis
      proof (cases "a = a0")
        case True
        have "noneStale (now s) (roomHeap s1 a0)"
        proof (rule forEach_evict_post[OF s1])
          show "getRoom s r0 = Some a0 \<or> clients (roomHeap s a0) = []"
            using Some by (simp add: getRoom_def)
          show "\<forall>k c. map_of (clients (roomHeap s a0)) k = Some c \<longrightarrow>
                  k \<in> set (map fst (clients (roomHeap s a0))) \<or>
                  now s - client_lastSeen c \<le> CLIENT_TIMEOUT"
            by (auto dest: map_of_SomeD intro: rev_image_eqI)
        qed
        then have "noneStale (now (?st s1)) (roomHeap (?st s1) a0)"
          using n2 by (simp add: noneStale_def)
        from ages_noneStale[OF a3 this] True n2 show ?thesis by simp
      next
        case ne: False
        with reg Some have "r \<noteq> r0" by auto
        with Cons.prems(3) have rin: "r \<in> set rs" by simp
        have lc: "lastCleanup (roomHeap (?st s1) a) = lastCleanup (roomHeap s a)"
          using forEach_evict_lastCleanup[OF s1, of a] ne by simp
        have "CLEANUP_INTERVAL \<le> now (?st s1) - lastCleanup (roomHeap (?st s1) a) \<or>
              noneStale (now (?st s1)) (roomHeap (?st s1) a)"
          using Cons.prems(4) lc n2 ages_noneStale[OF a2, of a] by auto
        from Cons.IH[OF _ Cons.prems(2) rin this] rest n2 show ?thesis by simp
      qed
    qed
  qed
qed

lemma sweep_post:
  assumes "cleanupInactiveClients n s = Some s'" "map_of (rooms s') r = Some a"
    "CLEANUP_INTERVAL \<le> now s - lastCleanup (roomHeap s a)"
  shows "noneStale (now s) (roomHeap s' a)"
proof -
  from assms(1) have run: "forEach_room n (now s) (map fst (rooms s)) s = Some s'"
    by (simp add: cleanupInactiveClients_def)
  from forEach_room_ages[OF run] assms(2) have "map_of (rooms s) r = Some a"
    by (rule ages_registry)
  then have "r \<in> set (map fst (rooms s))" by (auto dest: map_of_SomeD intro: rev_image_eqI)
  with forEach_room_post[OF run assms(2)] assms(3) show ?thesis by blast
qed

lemma forEach_send_quiet:
  "quiet s \<Longrightarrow> \<exists>s'. forEach_send rm a f excl ks s = Some s' \<and> quiet s'"
proof (induction ks arbitrary: s)
  case Nil
  then show ?case by simp
next
  case (Cons k ks)
  have q: "quiet (setLastSeen a k t (ws_send w f s))" for t w
    using Cons.prems by (simp add: quiet_def sockets_ws_send)
  show ?case
  proof (cases "map_of (clients (roomHeap s a)) k")
    case None
    with Cons show ?thesis by simp
  next
    case (Some c)
    with Cons.prems have nt: "\<not> sendThrows (sockets s (client_ws c))" by (simp add: quiet_def)
    show ?thesis
      using Some nt Cons.IH[OF Cons.prems] Cons.IH[OF q] by simp
  qed
qed

lemma quiet_tail: "quiet (deleteClient a roomId u (clearPing roomId u s)) = quiet s"
  by (simp add: quiet_def)

lemma removeClient_quiet:
  "quiet s \<Longrightarrow> \<exists>s'. removeClient (Suc n) roomId u s = Some s' \<and> quiet s'"
proof (cases "getRoom s roomId")
  case None
  assume "quiet s"
  with None show ?thesis by simp
next
  case (Some a)
  assume "quiet s"
  from forEach_send_quiet[OF this] obtain s1 where
    "forEach_send (removeClient n roomId) a
       (JSON_stringify \<lparr>msg_type = user_left, msg_userId = u, msg_timestamp = now s,
          msg_particles = None, msg_color = None\<rparr>) (Some u)
       (map fst (clients (roomHeap s a))) s = Some s1" "quiet s1"
    by blast
  with Some show ?thesis by (simp add: broadcastWith_def quiet_tail)
qed

lemma forEach_evict_quiet:
  "quiet s \<Longrightarrow> \<exists>s'. forEach_evict (Suc n) t roomId a ks s = Some s' \<and> quiet s'"
proof (induction ks arbitrary: s)
  case Nil
  then show ?case by simp
next
  case (Cons k ks)
  from removeClient_quiet[OF Cons.prems, of n roomId k] obtain s1 where
    s1: "removeClient (Suc n) roomId k s = Some s1" "quiet s1" by blast
  show ?case
  proof (cases "map_of (clients (roomHeap s a)) k")
    case None
    with Cons show ?thesis by simp
  next
    case (Some c)
    show ?thesis
    proof (cases "t - client_lastSeen c > CLIENT_TIMEOUT")
      case True
      with Some s1 Cons.IH[OF s1(2)] show ?thesis by simp
    next
      case False
      with Some Cons.IH[OF Cons.prems] show ?thesis by simp
    qed
  qed
qed

lemma quiet_stamp:
  "quiet (s\<lparr>roomHeap := h\<rparr>) = quiet s"
  by (simp add: quiet_def)

lemma forEach_room_quiet:
  "quiet s \<Longrightarrow> \<exists>s'. forEach_room (Suc n) t rs s = Some s' \<and> quiet s'"
proof (induction rs arbitrary: s)
  case Nil
  then show ?case by simp
next
  case (Cons r rs)
  show ?case
  proof (cases "map_of (rooms s) r")
    case None
    with Cons show ?thesis by simp
  next
    case (Some a)
    from forEach_evict_quiet[OF Cons.prems, of n t r a "map fst (clients (roomHeap s a))"]
    obtain s1 where s1: "forEach_evict (Suc n) t r a (map fst (clients (roomHeap s a))) s = Some s1"
      "quiet s1" by blast
    from s1(2) have "quiet (s1\<lparr>roomHeap := (roomHeap s1)(a := (roomHeap s1 a)\<lparr>lastCleanup := t\<rparr>)\<rparr>)"
      by (simp add: quiet_stamp)
    from Cons.IH[OF this] Cons.IH[OF Cons.prems] Some s1(1) show ?thesis by simp
  qed
qed

lemma removeClient_frame:
  assumes "removeClient n r0 u s = Some s'" "getRoom s r0 = Some a0 \<or> getRoom s r0 = None"
  shows "(\<forall>b. b \<noteq> a0 \<longrightarrow> roomHeap s' b = roomHeap s b) \<and>
         (rooms s' = rooms s \<or> rooms s' = AList.delete r0 (rooms s))"
proof (cases "getRoom s r0")
  case None
  with assms(1) removeClient_unregistered show ?thesis by blast
next
  case (Some b)
  with assms(2) have reg: "getRoom s r0 = Some a0" by simp
  note r = removeClient_reach[OF reg assms(1)]
  from reach_heap_other[OF r] reach_rooms[OF r] show ?thesis by auto
qed

lemma forEach_evict_frame:
  "forEach_evict n t r0 a0 ks s = Some s' \<Longrightarrow> getRoom s r0 = Some a0 \<or> getRoom s r0 = None \<Longrightarrow>
   (\<forall>b. b \<noteq> a0 \<longrightarrow> roomHeap s' b = roomHeap s b) \<and>
   (rooms s' = rooms s \<or> rooms s' = AList.delete r0 (rooms s))"
proof (induction ks arbitrary: s)
  case Nil
  then show ?case by simp
next
  case (Cons k ks)
  show ?case
  proof (cases "\<exists>c. map_of (clients (roomHeap s a0)) k = Some c \<and> t - client_lastSeen c > CLIENT_TIMEOUT")
    case False
    with Cons.prems(1) have "forEach_evict n t r0 a0 ks s = Some s'"
      by (auto split: option.splits if_splits)
    with Cons.IH Cons.prems(2) show ?thesis by blast
  next
    case True
    with Cons.prems(1) obtain s1 where s1: "removeClient n r0 k s = Some s1"
      and rest: "forEach_evict n t r0 a0 ks s1 = Some s'"
      by (auto split: option.splits if_splits)
    note f1 = removeClient_frame[OF s1 Cons.prems(2)]
    have g1: "getRoom s1 r0 = Some a0 \<or> getRoom s1 r0 = None"
      using f1 Cons.prems(2) by (auto simp: getRoom_def delete_conv')
    note f2 = Cons.IH[OF rest g1]
    from f1 f2 show ?thesis by (auto simp: delete_idem)
  qed
qed

lemma forEach_room_skip:
  "forEach_room n t rs s = Some s' \<Longrightarrow> map_of (rooms s) r = Some a \<Longrightarrow>
   t - lastCleanup (roomHeap s a) < CLEANUP_INTERVAL \<Longrightarrow>
   roomHeap s' a = roomHeap s a \<and> map_of (rooms s') r = Some a"
proof (induction rs arbitrary: s)
  case Nil
  then show ?case by simp
next
  case (Cons r0 rs)
  show ?case
  proof (cases "map_of (rooms s) r0")
    case None
    with Cons show ?thesis by simp
  next
    case (Some a0)
    show ?thesis
    proof (cases "t - lastCleanup (roomHeap s a0) < CLEANUP_INTERVAL")
      case True
      with Some Cons show ?thesis by simp
    next
      case False
      let ?st = "\<lambda>s1. s1\<lparr>roomHeap := (roomHeap s1)(a0 := (roomHeap s1 a0)\<lparr>lastCleanup := t\<rparr>)\<rparr>"
      from False Some Cons.prems(1) obtain s1 where
        s1: "forEach_evict n t r0 a0 (map fst (clients (roomHeap s a0))) s = Some s1"
        and rest: "forEach_room n t rs (?st s1) = Some s'"
        by (auto split: option.splits)
      from False Cons.prems(3) have ne: "a \<noteq> a0" by auto
      with Some Cons.prems(2) have rne: "r \<noteq> r0" by auto
      have fr: "(\<forall>b. b \<noteq> a0 \<longrightarrow> roomHeap s1 b = roomHeap s b) \<and>
                (rooms s1 = rooms s \<or> rooms s1 = AList.delete r0 (rooms s))"
        by (rule forEach_evict_frame[OF s1]) (simp add: getRoom_def Some)
      have h1: "roomHeap (?st s1) a = roomHeap s a" using fr ne by simp
      have h2: "map_of (rooms (?st s1)) r = Some a"
        using fr rne Cons.prems(2) by (auto simp: delete_conv')
      from Cons.IH[OF rest h2] h1 Cons.prems(3) show ?thesis by simp
    qed
  qed
qed

lemma sweep_skip:
  assumes "cleanupInactiveClients n s = Some s'" "map_of (rooms s) r = Some a"
    "now s - lastCleanup (roomHeap s a) < CLEANUP_INTERVAL"
  shows "roomHeap s' a = roomHeap s a \<and> map_of (rooms s') r = Some a"
  using assms forEach_room_skip by (simp add: cleanupInactiveClients_def)

lemma sweep_quiet:
  "quiet s \<Longrightarrow> \<exists>s'. cleanupInactiveClients (Suc n) s = Some s'"
  using forEach_room_quiet by (fastforce simp: cleanupInactiveClients_def)

section \<open>A delivered broadcast refreshes lastSeen\<close>

lemma forEach_send_delivers:
  "forEach_send (removeClient n roomId) a f excl ks s = Some s' \<Longrightarrow>
   getRoom s roomId = Some a \<Longrightarrow> k \<in> set ks \<Longrightarrow>
   map_of (clients (roomHeap s a)) k = Some c \<Longrightarrow> notExcluded excl c \<Longrightarrow>
   readyState (sockets s (client_ws c)) = OPEN \<Longrightarrow> \<not> sendThrows (sockets s (client_ws c)) \<Longrightarrow>
   k \<notin> throwerIds s a \<Longrightarrow>
   \<exists>c'. map_of (clients (roomHeap s' a)) k = Some c' \<and> client_lastSeen c' = now s \<and>
        f \<in> set (sent (sockets s' (client_ws c)))"
proof (induction ks arbitrary: s c)
  case Nil
  then show ?case by simp
next
  case (Cons k0 ks)
  note reg = Cons.prems(2)
  show ?case
  proof (cases "k0 = k")
    case True
    let ?s1 = "setLastSeen a k (now s) (ws_send (client_ws c) f s)"
    from True Cons.prems have rest: "forEach_send (removeClient n roomId) a f excl ks ?s1 = Some s'"
      by simp
    have reg1: "getRoom ?s1 roomId = Some a" using reg by (simp add: getRoom_def)
    have r01: "reach roomId a (throwerIds s a) s ?s1"
      using Cons.prems(4,6,7) by (auto intro: reach.reach_send reach.reach_refl)
    have sub: "throwerIds ?s1 a \<subseteq> throwerIds s a" by (rule reach_throwerIds[OF r01])
    have r1: "reach roomId a (throwerIds ?s1 a) ?s1 s'"
      by (rule forEach_send_reach[OF removeClient_reach reg1 reach.reach_refl _ rest]) auto
    have k1: "map_of (clients (roomHeap ?s1 a)) k = Some (c\<lparr>client_lastSeen := now s\<rparr>)"
      using Cons.prems(4) by (simp add: clients_setLastSeen)
    have "k \<notin> throwerIds ?s1 a" using sub Cons.prems(8) by auto
    from reach_keeps[OF r1 this, of a] k1 obtain c' where
      c': "map_of (clients (roomHeap s' a)) k = Some c'" by auto
    from reach_clients[OF r1 c'] k1 have "client_lastSeen c' = now s" by auto
    moreover from reach_sockets[OF r1, of "client_ws c"]
    have "f \<in> set (sent (sockets s' (client_ws c)))" by (auto simp: sockets_ws_send)
    ultimately show ?thesis using c' by blast
  next
    case False
    with Cons.prems(3) have kin: "k \<in> set ks" by simp
    have "\<exists>s1. reach roomId a (throwerIds s a) s s1 \<and>
            forEach_send (removeClient n roomId) a f excl ks s1 = Some s'"
    proof (cases "map_of (clients (roomHeap s a)) k0")
      case None
      with Cons.prems(1) show ?thesis by (auto intro: reach.reach_refl)
    next
      case (Some c0)
      show ?thesis
      proof (cases "notExcluded excl c0 \<and> readyState (sockets s (client_ws c0)) = OPEN")
        case False
        with Some Cons.prems(1) show ?thesis by (auto intro: reach.reach_refl)
      next
        case True
        show ?thesis
        proof (cases "sendThrows (sockets s (client_ws c0))")
          case False
          with True Some Cons.prems(1) show ?thesis
            by (auto intro!: exI[of _ "setLastSeen a k0 (now s) (ws_send (client_ws c0) f s)"]
                     intro: reach.reach_send reach.reach_refl)
        next
          case thr: True
          with True Some Cons.prems(1) obtain s1 where
            s1: "removeClient n roomId (client_userId c0) s = Some s1"
                "forEach_send (removeClient n roomId) a f excl ks s1 = Some s'"
            by (auto split: option.splits)
          have "client_userId c0 \<in> throwerIds s a"
            using Some True thr by (auto simp: throwerIds_def)
          then have "insert (client_userId c0) (throwerIds s a) = throwerIds s a" by auto
          with removeClient_reach[OF reg s1(1)] s1(2) show ?thesis by auto
        qed
      qed
    qed
    then obtain s1 where r: "reach roomId a (throwerIds s a) s s1"
      and rest: "forEach_send (removeClient n roomId) a f excl ks s1 = Some s'" by blast
    from reach_keeps[OF r Cons.prems(8), of a] Cons.prems(4) obtain c1 where
      c1: "map_of (clients (roomHeap s1 a)) k = Some c1" by auto
    from reach_clients[OF r c1] Cons.prems(4) have same: "client_ws c1 = client_ws c"
      "client_userId c1 = client_userId c" by auto
    have reg1: "getRoom s1 roomId = Some a" using reach_getRoom[OF r reg] c1 by auto
    have ex1: "notExcluded excl c1" using Cons.prems(5) same by (simp add: notExcluded_def split: option.splits)
    have so: "readyState (sockets s1 (client_ws c1)) = OPEN" "\<not> sendThrows (sockets s1 (client_ws c1))"
      using reach_sockets[OF r, of "client_ws c"] same Cons.prems(6,7) by auto
    have nt: "k \<notin> throwerIds s1 a" using reach_throwerIds[OF r] Cons.prems(8) by auto
    from Cons.IH[OF rest reg1 kin c1 ex1 so nt] reach_now[OF r] same show ?thesis by simp
  qed
qed

lemma broadcast_refreshes:
  assumes "broadcastToRoom n roomId m excl s = Some s'" "getRoom s roomId = Some a"
    "map_of (clients (roomHeap s a)) k = Some c" "notExcluded excl c"
    "readyState (sockets s (client_ws c)) = OPEN" "\<not> sendThrows (sockets s (client_ws c))"
    "k \<notin> throwerIds s a"
  shows "\<exists>c'. map_of (clients (roomHeap s' a)) k = Some c' \<and> client_lastSeen c' = now s \<and>
          JSON_stringify m \<in> set (sent (sockets s' (client_ws c)))"
proof -
  from assms(1,2) have run: "forEach_send (removeClient n roomId) a (JSON_stringify m) excl
      (map fst (clients (roomHeap s a))) s = Some s'"
    by (simp add: broadcastToRoom_def broadcastWith_def)
  have "k \<in> set (map fst (clients (roomHeap s a)))"
    using assms(3) by (auto dest: map_of_SomeD intro: rev_image_eqI)
  from forEach_send_delivers[OF run assms(2) this assms(3-7)] show ?thesis .
qed

section \<open>Inbound messages and lastSeen\<close>

lemma manager_onMessage_other:
  "msg_type d \<noteq> pong \<Longrightarrow> manager_onMessage roomId userId (Json d) s = s"
  by (simp add: manager_onMessage_def JSON_parse_def)

lemma manager_onMessage_pong:
  "msg_type d = pong \<Longrightarrow>
     manager_onMessage roomId userId (Json d) s = updateClientLastSeen roomId userId s"
  by (simp add: manager_onMessage_def JSON_parse_def)

lemma fold_manager_other:
  "msg_type d \<noteq> pong \<Longrightarrow>
     fold (\<lambda>(roomId, userId). manager_onMessage roomId userId (Json d)) ls s = s"
  by (induction ls arbitrary: s) (auto simp: manager_onMessage_other)

lemma lastSeenOf_update:
  "lastSeenOf (updateClientLastSeen r' u' s) r u =
     (case lastSeenOf s r u of
        None \<Rightarrow> None
      | Some t \<Rightarrow> if getRoom s r' = getRoom s r \<and> u' = u then Some (now s) else Some t)"
  by (auto simp: updateClientLastSeen_def setLastSeen_def lastSeenOf_def getRoom_def update_conv'
           split: option.splits)

lemma now_update [simp]: "now (updateClientLastSeen r u s) = now s"
  by (simp add: updateClientLastSeen_def split: option.splits)

lemma fold_pong_keeps:
  "msg_type d = pong \<Longrightarrow> lastSeenOf s r u = Some (now s) \<Longrightarrow>
     lastSeenOf (fold (\<lambda>(roomId, userId). manager_onMessage roomId userId (Json d)) ls s) r u
       = Some (now s)"
proof (induction ls arbitrary: s)
  case Nil
  then show ?case by simp
next
  case (Cons l ls)
  obtain r' u' where l: "l = (r', u')" by (cases l)
  have "lastSeenOf (updateClientLastSeen r' u' s) r u = Some (now (updateClientLastSeen r' u' s))"
    using Cons.prems(2) by (simp add: lastSeenOf_update)
  from Cons.IH[OF Cons.prems(1) this] show ?case
    by (simp add: l manager_onMessage_pong[OF Cons.prems(1), of r' u' s])
qed

lemma fold_pong_refreshes:
  "msg_type d = pong \<Longrightarrow> (r, u) \<in> set ls \<Longrightarrow> lastSeenOf s r u \<noteq> None \<Longrightarrow>
     lastSeenOf (fold (\<lambda>(roomId, userId). manager_onMessage roomId userId (Json d)) ls s) r u
       = Some (now s)"
proof (induction ls arbitrary: s)
  case Nil
  then show ?case by simp
next
  case (Cons l ls)
  obtain r' u' where l: "l = (r', u')" by (cases l)
  let ?s1 = "updateClientLastSeen r' u' s"
  show ?case
  proof (cases "l = (r, u)")
    case True
    with l Cons.prems(3) have "lastSeenOf ?s1 r u = Some (now ?s1)"
      by (auto simp: lastSeenOf_update)
    from fold_pong_keeps[OF Cons.prems(1) this, of ls] show ?thesis
      by (simp add: l manager_onMessage_pong[OF Cons.prems(1), of r' u' s])
  next
    case False
    with Cons.prems(2) have "(r, u) \<in> set ls" by auto
    moreover have "lastSeenOf ?s1 r u \<noteq> None"
      using Cons.prems(3) by (auto simp: lastSeenOf_update split: option.splits)
    ultimately have "lastSeenOf (fold (\<lambda>(roomId, userId). manager_onMessage roomId userId (Json d)) ls ?s1) r u
       = Some (now ?s1)" using Cons.IH Cons.prems(1) by blast
    then show ?thesis by (simp add: l manager_onMessage_pong[OF Cons.prems(1), of r' u' s])
  qed
qed

lemma forEach_send_sender:
  "quiet s \<Longrightarrow> map_of (clients (roomHeap s a)) u = Some c \<Longrightarrow> client_userId c = u \<Longrightarrow> u \<noteq> [] \<Longrightarrow>
   \<exists>s'. forEach_send rm a f (Some u) ks s = Some s' \<and> quiet s' \<and>
        map_of (clients (roomHeap s' a)) u = Some c \<and> rooms s' = rooms s \<and> now s' = now s"
proof (induction ks arbitrary: s)
  case Nil
  then show ?case by simp
next
  case (Cons k ks)
  show ?case
  proof (cases "map_of (clients (roomHeap s a)) k")
    case None
    with Cons show ?thesis by simp
  next
    case (Some c0)
    from Cons.prems(1) have nt: "\<not> sendThrows (sockets s (client_ws c0))" by (simp add: quiet_def)
    show ?thesis
    proof (cases "notExcluded (Some u) c0 \<and> readyState (sockets s (client_ws c0)) = OPEN")
      case False
      with Some Cons show ?thesis by auto
    next
      case True
      with Cons.prems(3,4) have "client_userId c0 \<noteq> client_userId c"
        by (auto simp: notExcluded_def)
      with Some Cons.prems(2) have ku: "k \<noteq> u" by auto
      let ?s1 = "setLastSeen a k (now s) (ws_send (client_ws c0) f s)"
      have q: "quiet ?s1" using Cons.prems(1) by (simp add: quiet_def sockets_ws_send)
      have m: "map_of (clients (roomHeap ?s1 a)) u = Some c"
        using Cons.prems(2) ku by (simp add: clients_setLastSeen)
      from Cons.IH[OF q m Cons.prems(3,4)] True Some nt show ?thesis by simp
    qed
  qed
qed

lemma relay_keeps_sender:
  assumes "quiet s" "getRoom s roomId = Some a" "map_of (clients (roomHeap s a)) u = Some c"
    "client_userId c = u" "u \<noteq> []"
  shows "\<exists>s'. broadcastToRoom n roomId m (Some u) s = Some s' \<and>
           lastSeenOf s' roomId u = Some (client_lastSeen c) \<and> now s' = now s"
proof -
  from forEach_send_sender[OF assms(1,3,4,5)] obtain s' where
    "forEach_send (removeClient n roomId) a (JSON_stringify m) (Some u)
       (map fst (clients (roomHeap s a))) s = Some s'"
    "map_of (clients (roomHeap s' a)) u = Some c" "rooms s' = rooms s" "now s' = now s"
    by blast
  with assms(2) show ?thesis
    by (simp add: broadcastToRoom_def broadcastWith_def lastSeenOf_def getRoom_def)
qed

lemma event_other:
  assumes "quiet s" "getRoom s (conn_roomId conn) = Some a"
    "map_of (clients (roomHeap s a)) u = Some c" "client_userId c = u" "u \<noteq> []"
    "conn_userId conn = Some u" "msg_type d \<noteq> user_joined" "msg_type d \<noteq> pong"
  shows "\<exists>s'. ws_emit_message n conn (Json d) s = Some (conn, s') \<and>
           lastSeenOf s' (conn_roomId conn) u = Some (client_lastSeen c)"
proof -
  from relay_keeps_sender[OF assms(1-5), of n d] obtain s' where
    s': "broadcastToRoom n (conn_roomId conn) d (Some u) s = Some s'"
        "lastSeenOf s' (conn_roomId conn) u = Some (client_lastSeen c)" by blast
  have "server_onMessage n conn (Json d) s = Some (conn, s')"
    using assms(5,6,7) s'(1) by (simp add: server_onMessage_def JSON_parse_def)
  then show ?thesis using s'(2) assms(8)
    by (simp add: ws_emit_message_def fold_manager_other)
qed

lemma event_pong:
  assumes "quiet s" "getRoom s (conn_roomId conn) = Some a"
    "map_of (clients (roomHeap s a)) u = Some c" "client_userId c = u" "u \<noteq> []"
    "conn_userId conn = Some u" "msg_type d = pong"
    "(conn_roomId conn, u) \<in> set (listeners (sockets s (conn_ws conn)))"
  shows "\<exists>s'. ws_emit_message n conn (Json d) s = Some (conn, s') \<and>
           lastSeenOf s' (conn_roomId conn) u = Some (now s)"
proof -
  from relay_keeps_sender[OF assms(1-5), of n d] obtain s' where
    s': "broadcastToRoom n (conn_roomId conn) d (Some u) s = Some s'"
        "lastSeenOf s' (conn_roomId conn) u = Some (client_lastSeen c)" "now s' = now s" by blast
  have "server_onMessage n conn (Json d) s = Some (conn, s')"
    using assms(5,6,7) s'(1) by (simp add: server_onMessage_def JSON_parse_def)
  moreover have "lastSeenOf (fold (\<lambda>(roomId, userId). manager_onMessage roomId userId (Json d))
      (listeners (sockets s (conn_ws conn))) s') (conn_roomId conn) u = Some (now s')"
    by (rule fold_pong_refreshes[OF assms(7,8)]) (simp add: s'(2))
  ultimately show ?thesis using s'(3)
    by (simp add: ws_emit_message_def)
qed

section \<open>The sweep keeps a client that is not stale\<close>

lemma throwerIds_other:
  assumes "reach roomId a0 U s s'" "a \<noteq> a0"
  shows "throwerIds s' a = throwerIds s a"
  using reach_heap_other[OF assms] reach_sockets[OF assms(1)]
  by (simp add: throwerIds_def)

lemma removeClient_freshMember:
  assumes run: "removeClient n r0 k0 s = Some s'"
    and reg: "getRoom s r0 = Some a0 \<or> getRoom s r0 = None"
    and P: "freshMember s a k" and ne: "a = a0 \<longrightarrow> k0 \<noteq> k"
  shows "freshMember s' a k"
proof (cases "getRoom s r0")
  case None
  with run removeClient_unregistered P show ?thesis by blast
next
  case (Some b)
  with reg have reg0: "getRoom s r0 = Some a0" by simp
  note r = removeClient_reach[OF reg0 run]
  from P obtain c where c: "map_of (clients (roomHeap s a)) k = Some c"
      "now s - client_lastSeen c \<le> CLIENT_TIMEOUT" and nt: "k \<notin> throwerIds s a"
    by (auto simp: freshMember_def split: option.splits)
  show ?thesis
  proof (cases "a = a0")
    case False
    with reach_heap_other[OF r False] throwerIds_other[OF r False] reach_now[OF r] P
    show ?thesis by (simp add: freshMember_def split: option.splits)
  next
    case True
    with ne nt have "k \<notin> insert k0 (throwerIds s a0)" by auto
    from reach_keeps[OF r this, of a0] c(1) True obtain c' where
      c': "map_of (clients (roomHeap s' a0)) k = Some c'" by auto
    from reach_clients[OF r c'] c True
    have "now s - client_lastSeen c' \<le> CLIENT_TIMEOUT" by (auto simp: CLIENT_TIMEOUT_def)
    moreover have "k \<notin> throwerIds s' a0" using reach_throwerIds[OF r] nt True by auto
    ultimately show ?thesis using c' True reach_now[OF r] by (simp add: freshMember_def)
  qed
qed

lemma removeClient_now: "removeClient n r u s = Some s' \<Longrightarrow> now s' = now s"
  by (drule removeClient_ages) (rule ages_now)

lemma forEach_evict_freshMember:
  "forEach_evict n (now s) r0 a0 ks s = Some s' \<Longrightarrow>
   getRoom s r0 = Some a0 \<or> getRoom s r0 = None \<Longrightarrow> freshMember s a k \<Longrightarrow>
   freshMember s' a k"
proof (induction ks arbitrary: s)
  case Nil
  then show ?case by simp
next
  case (Cons k0 ks)
  show ?case
  proof (cases "\<exists>c. map_of (clients (roomHeap s a0)) k0 = Some c \<and> now s - client_lastSeen c > CLIENT_TIMEOUT")
    case False
    with Cons.prems(1) have "forEach_evict n (now s) r0 a0 ks s = Some s'"
      by (auto split: option.splits if_splits)
    with Cons.IH Cons.prems(2,3) show ?thesis by blast
  next
    case True
    with Cons.prems(1) obtain s1 where s1: "removeClient n r0 k0 s = Some s1"
      and rest: "forEach_evict n (now s) r0 a0 ks s1 = Some s'"
      by (auto split: option.splits if_splits)
    have ne: "a = a0 \<longrightarrow> k0 \<noteq> k"
      using True Cons.prems(3) by (auto simp: freshMember_def split: option.splits)
    note P1 = removeClient_freshMember[OF s1 Cons.prems(2,3) ne]
    have g1: "getRoom s1 r0 = Some a0 \<or> getRoom s1 r0 = None"
      using removeClient_frame[OF s1 Cons.prems(2)] Cons.prems(2)
      by (auto simp: getRoom_def delete_conv')
    from Cons.IH[OF _ g1 P1] rest removeClient_now[OF s1] show ?thesis by simp
  qed
qed

lemma freshMember_stamp:
  "freshMember (s\<lparr>roomHeap := (roomHeap s)(b := (roomHeap s b)\<lparr>lastCleanup := t\<rparr>)\<rparr>) a k
     = freshMember s a k"
  by (cases "a = b") (auto simp: freshMember_def throwerIds_def split: option.splits)

lemma forEach_room_freshMember:
  "forEach_room n (now s) rs s = Some s' \<Longrightarrow> freshMember s a k \<Longrightarrow> freshMember s' a k"
proof (induction rs arbitrary: s)
  case Nil
  then show ?case by simp
next
  case (Cons r0 rs)
  show ?case
  proof (cases "map_of (rooms s) r0")
    case None
    with Cons show ?thesis by simp
  next
    case (Some a0)
    show ?thesis
    proof (cases "now s - lastCleanup (roomHeap s a0) < CLEANUP_INTERVAL")
      case True
      with Some Cons show ?thesis by simp
    next
      case False
      let ?st = "\<lambda>s1. s1\<lparr>roomHeap := (roomHeap s1)(a0 := (roomHeap s1 a0)\<lparr>lastCleanup := now s\<rparr>)\<rparr>"
      from False Some Cons.prems(1) obtain s1 where
        s1: "forEach_evict n (now s) r0 a0 (map fst (clients (roomHeap s a0))) s = Some s1"
        and rest: "forEach_room n (now s) rs (?st s1) = Some s'"
        by (auto split: option.splits)
      have "freshMember s1 a k"
        by (rule forEach_evict_freshMember[OF s1 _ Cons.prems(2)]) (simp add: getRoom_def Some)
      then have P2: "freshMember (?st s1) a k" by (simp add: freshMember_stamp)
      have n2: "now (?st s1) = now s" using ages_now[OF forEach_evict_ages[OF s1]] by simp
      from Cons.IH[OF _ P2] rest n2 show ?thesis by simp
    qed
  qed
qed

lemma sweep_keeps_fresh:
  "cleanupInactiveClients n s = Some s' \<Longrightarrow> freshMember s a k \<Longrightarrow> freshMember s' a k"
  by (simp add: cleanupInactiveClients_def forEach_room_freshMember)

lemma own_key_not_thrower:
  assumes "\<forall>k' c'. map_of (clients (roomHeap s a)) k' = Some c' \<longrightarrow> client_userId c' = k'"
    "map_of (clients (roomHeap s a)) k = Some c" "\<not> sendThrows (sockets s (client_ws c))"
  shows "k \<notin> throwerIds s a"
proof
  assume "k \<in> throwerIds s a"
  then obtain k' c' where h: "map_of (clients (roomHeap s a)) k' = Some c'"
    "sendThrows (sockets s (client_ws c'))" "client_userId c' = k"
    by (auto simp: throwerIds_def)
  with assms(1) have "k' = k" by blast
  with h assms(2,3) show False by simp
qed

section \<open>A leave is announced to the members that stay\<close>

lemma removeClient_notifies:
  assumes run: "removeClient n roomId u s = Some s'" and reg: "getRoom s roomId = Some a"
    and own: "\<forall>k' c'. map_of (clients (roomHeap s a)) k' = Some c' \<longrightarrow> client_userId c' = k'"
    and k: "map_of (clients (roomHeap s a)) k = Some c" "k \<noteq> u"
      "readyState (sockets s (client_ws c)) = OPEN" "\<not> sendThrows (sockets s (client_ws c))"
  shows "Json (message user_left u (now s)) \<in> set (sent (sockets s' (client_ws c)))"
proof (cases n)
  case 0
  with run show ?thesis by simp
next
  case (Suc m)
  let ?f = "JSON_stringify \<lparr>msg_type = user_left, msg_userId = u, msg_timestamp = now s,
              msg_particles = None, msg_color = None\<rparr>"
  from run reg Suc obtain s1 where
    s1: "forEach_send (removeClient m roomId) a ?f (Some u) (map fst (clients (roomHeap s a))) s
           = Some s1"
    and s': "s' = deleteClient a roomId u (clearPing roomId u s1)"
    by (auto simp: broadcastWith_def split: option.splits)
  have kin: "k \<in> set (map fst (clients (roomHeap s a)))"
    using k(1) by (auto dest: map_of_SomeD intro: rev_image_eqI)
  have ne: "notExcluded (Some u) c" using own k(1,2) by (auto simp: notExcluded_def)
  have nt: "k \<notin> throwerIds s a" by (rule own_key_not_thrower[OF own k(1) k(4)])
  from forEach_send_delivers[OF s1 reg kin k(1) ne k(3,4) nt]
  have "?f \<in> set (sent (sockets s1 (client_ws c)))" by blast
  then show ?thesis by (simp add: s' JSON_stringify_def message_def)
qed

section \<open>The sweep evicts a stale client whose socket is not open\<close>

lemma reach_closedStale:
  "reach r0 a0 U s s' \<Longrightarrow> closedStale s a k \<Longrightarrow> closedStale s' a k"
proof (induction rule: reach.induct)
  case reach_refl
  then show ?case by simp
next
  case (reach_send s1 k0 c f)
  then show ?case
    by (auto simp: closedStale_def clients_setLastSeen sockets_ws_send split: option.splits if_splits)
next
  case (reach_del s1 u)
  then show ?case
    by (auto simp: closedStale_def clients_deleteClient split: option.splits if_splits)
qed

lemma removeClient_closedStale:
  "removeClient n r0 u s = Some s' \<Longrightarrow> closedStale s a k \<Longrightarrow> closedStale s' a k"
  by (cases "getRoom s r0")
     (auto dest: removeClient_unregistered removeClient_reach reach_closedStale)

lemma ages_absent:
  "ages s s' \<Longrightarrow> map_of (clients (roomHeap s a)) k = None \<Longrightarrow>
     map_of (clients (roomHeap s' a)) k = None"
  unfolding ages_def by (metis not_Some_eq)

lemma forEach_evict_closedStale:
  "forEach_evict n t r0 a0 ks s = Some s' \<Longrightarrow> closedStale s a k \<Longrightarrow> closedStale s' a k"
proof (induction ks arbitrary: s)
  case Nil
  then show ?case by simp
next
  case (Cons k0 ks)
  then show ?case
    by (auto split: option.splits if_splits dest: removeClient_closedStale)
qed

lemma forEach_evict_removes_closed:
  "forEach_evict n (now s) r a ks s = Some s' \<Longrightarrow> closedStale s a k \<Longrightarrow> k \<in> set ks \<Longrightarrow>
   getRoom s r = Some a \<or> clients (roomHeap s a) = [] \<Longrightarrow>
   map_of (clients (roomHeap s' a)) k = None"
proof (induction ks arbitrary: s)
  case Nil
  then show ?case by simp
next
  case (Cons k0 ks)
  show ?case
  proof (cases "k0 = k")
    case True
    show ?thesis
    proof (cases "map_of (clients (roomHeap s a)) k")
      case None
      with forEach_evict_ages[OF Cons.prems(1)] show ?thesis by (rule ages_absent)
    next
      case (Some c)
      with Cons.prems(2) have st: "now s - client_lastSeen c > CLIENT_TIMEOUT"
        by (simp add: closedStale_def)
      with Some True Cons.prems(1) obtain s1 where s1: "removeClient n r k s = Some s1"
        and rest: "forEach_evict n (now s) r a ks s1 = Some s'"
        by (auto split: option.splits)
      from Some Cons.prems(4) have reg: "getRoom s r = Some a" by auto
      from removeClient_target_gone[OF reg s1] forEach_evict_ages[OF rest]
      show ?thesis by (auto intro: ages_absent)
    qed
  next
    case False
    with Cons.prems(3) have kin: "k \<in> set ks" by simp
    have "\<exists>s1. forEach_evict n (now s) r a ks s1 = Some s' \<and> closedStale s1 a k \<and>
            now s1 = now s \<and> (getRoom s1 r = Some a \<or> clients (roomHeap s1 a) = [])"
    proof (cases "\<exists>c. map_of (clients (roomHeap s a)) k0 = Some c \<and>
                      now s - client_lastSeen c > CLIENT_TIMEOUT")
      case False
      with Cons.prems show ?thesis
        by (intro exI[of _ s]) (auto split: option.splits if_splits)
    next
      case True
      with Cons.prems(1) obtain s1 where s1: "removeClient n r k0 s = Some s1"
        and rest: "forEach_evict n (now s) r a ks s1 = Some s'"
        by (auto split: option.splits if_splits)
      from True Cons.prems(4) have reg: "getRoom s r = Some a" by auto
      note rr = removeClient_reach[OF reg s1]
      from rest removeClient_closedStale[OF s1 Cons.prems(2)] reach_now[OF rr]
        reach_getRoom[OF rr reg]
      show ?thesis by auto
    qed
    then obtain s1 where s1: "forEach_evict n (now s) r a ks s1 = Some s'" "closedStale s1 a k"
      "now s1 = now s" "getRoom s1 r = Some a \<or> clients (roomHeap s1 a) = []" by blast
    from s1(1,3) have "forEach_evict n (now s1) r a ks s1 = Some s'" by simp
    from Cons.IH[OF this s1(2) kin s1(4)] show ?thesis .
  qed
qed

lemma closedStale_stamp:
  "closedStale (s\<lparr>roomHeap := (roomHeap s)(b := (roomHeap s b)\<lparr>lastCleanup := t\<rparr>)\<rparr>) a k
     = closedStale s a k"
  by (cases "a = b") (auto simp: closedStale_def split: option.splits)

lemma forEach_room_removes_closed:
  "forEach_room n (now s) rs s = Some s' \<Longrightarrow> map_of (rooms s) r = Some a \<Longrightarrow> r \<in> set rs \<Longrightarrow>
   CLEANUP_INTERVAL \<le> now s - lastCleanup (roomHeap s a) \<Longrightarrow> closedStale s a k \<Longrightarrow>
   map_of (clients (roomHeap s' a)) k = None"
proof (induction rs arbitrary: s)
  case Nil
  then show ?case by simp
next
  case (Cons r0 rs)
  show ?case
  proof (cases "map_of (rooms s) r0")
    case None
    with Cons.prems(2) have "r \<noteq> r0" by auto
    with Cons.prems(3) have "r \<in> set rs" by simp
    moreover from None Cons.prems(1) have "forEach_room n (now s) rs s = Some s'" by simp
    ultimately show ?thesis using Cons.IH Cons.prems(2,4,5) by blast
  next
    case (Some a0)
    show ?thesis
    proof (cases "now s - lastCleanup (roomHeap s a0) < CLEANUP_INTERVAL")
      case True
      with Some Cons.prems(2,4) have "r \<noteq> r0" by auto
      with Cons.prems(3) have "r \<in> set rs" by simp
      moreover from True Some Cons.prems(1) have "forEach_room n (now s) rs s = Some s'" by simp
      ultimately show ?thesis using Cons.IH Cons.prems(2,4,5) by blast
    next
      case False
      let ?st = "\<lambda>s1. s1\<lparr>roomHeap := (roomHeap s1)(a0 := (roomHeap s1 a0)\<lparr>lastCleanup := now s\<rparr>)\<rparr>"
      from False Some Cons.prems(1) obtain s1 where
        s1: "forEach_evict n (now s) r0 a0 (map fst (clients (roomHeap s a0))) s = Some s1"
        and rest: "forEach_room n (now s) rs (?st s1) = Some s'"
        by (auto split: option.splits)
      have n2: "now (?st s1) = now s" using ages_now[OF forEach_evict_ages[OF s1]] by simp
      have a3: "ages (?st s1) s'" using rest by (rule forEach_room_ages)
      have reg0: "getRoom s r0 = Some a0" using Some by (simp add: getRoom_def)
      show ?thesis
      proof (cases "a = a0")
        case True
        have "map_of (clients (roomHeap s1 a0)) k = None"
        proof (cases "map_of (clients (roomHeap s a0)) k")
          case None
          with forEach_evict_ages[OF s1] show ?thesis by (rule ages_absent)
        next
          case (Some c)
          then have "k \<in> set (map fst (clients (roomHeap s a0)))"
            by (auto dest: map_of_SomeD intro: rev_image_eqI)
          from forEach_evict_removes_closed[OF s1 _ this] Cons.prems(5) True reg0
          show ?thesis by simp
        qed
        then have "map_of (clients (roomHeap (?st s1) a)) k = None" using True by simp
        with a3 show ?thesis by (rule ages_absent)
      next
        case ne: False
        with Some Cons.prems(2) have rne: "r \<noteq> r0" by auto
        with Cons.prems(3) have rin: "r \<in> set rs" by simp
        have fr: "(\<forall>b. b \<noteq> a0 \<longrightarrow> roomHeap s1 b = roomHeap s b) \<and>
                  (rooms s1 = rooms s \<or> rooms s1 = AList.delete r0 (rooms s))"
          by (rule forEach_evict_frame[OF s1]) (simp add: reg0)
        have h2: "map_of (rooms (?st s1)) r = Some a"
          using fr rne Cons.prems(2) by (auto simp: delete_conv')
        have h3: "CLEANUP_INTERVAL \<le> now (?st s1) - lastCleanup (roomHeap (?st s1) a)"
          using fr ne Cons.prems(4) n2 by simp
        have h4: "closedStale (?st s1) a k"
          using forEach_evict_closedStale[OF s1 Cons.prems(5)] by (simp add: closedStale_stamp)
        from Cons.IH[OF _ h2 rin h3 h4] rest n2 show ?thesis by simp
      qed
    qed
  qed
qed

lemma sweep_removes_closed:
  assumes "cleanupInactiveClients n s = Some s'" "map_of (rooms s) r = Some a"
    "CLEANUP_INTERVAL \<le> now s - lastCleanup (roomHeap s a)"
    "map_of (clients (roomHeap s a)) k = Some c" "now s - client_lastSeen c > CLIENT_TIMEOUT"
    "readyState (sockets s (client_ws c)) \<noteq> OPEN"
  shows "map_of (clients (roomHeap s' a)) k = None"
proof -
  from assms(1) have run: "forEach_room n (now s) (map fst (rooms s)) s = Some s'"
    by (simp add: cleanupInactiveClients_def)
  have rin: "r \<in> set (map fst (rooms s))"
    using assms(2) by (auto dest: map_of_SomeD intro: rev_image_eqI)
  have cs: "closedStale s a k" using assms(4,5,6) by (simp add: closedStale_def)
  from forEach_room_removes_closed[OF run assms(2) rin assms(3) cs] show ?thesis .
qed

section \<open>The depth of nested calls\<close>

text \<open>
  A run that returns within some depth of nested \<^verbatim>\<open>removeClient\<close> calls returns the same
  state within any greater depth, and a broadcast returns when no socket's send raises.
\<close>

lemma forEach_send_deeper:
  assumes "\<And>u s s'. rm u s = Some s' \<Longrightarrow> rm' u s = Some s'"
  shows "forEach_send rm a f excl ks s = Some s' \<Longrightarrow> forEach_send rm' a f excl ks s = Some s'"
proof (induction ks arbitrary: s)
  case Nil
  then show ?case by simp
next
  case (Cons k ks)
  then show ?case
    by (auto split: option.splits if_splits dest: assms)
qed

lemma removeClient_Suc:
  "removeClient n roomId u s = Some s' \<Longrightarrow> removeClient (Suc n) roomId u s = Some s'"
proof (induction n arbitrary: u s s')
  case 0
  then show ?case by simp
next
  case (Suc n)
  show ?case
  proof (cases "getRoom s roomId")
    case None
    with Suc.prems show ?thesis by simp
  next
    case (Some a)
    let ?f = "JSON_stringify \<lparr>msg_type = user_left, msg_userId = u, msg_timestamp = now s,
                msg_particles = None, msg_color = None\<rparr>"
    from Suc.prems Some obtain s1 where
      s1: "forEach_send (removeClient n roomId) a ?f (Some u) (map fst (clients (roomHeap s a))) s
             = Some s1"
      and s': "s' = deleteClient a roomId u (clearPing roomId u s1)"
      by (auto simp: broadcastWith_def split: option.splits)
    have "forEach_send (removeClient (Suc n) roomId) a ?f (Some u)
            (map fst (clients (roomHeap s a))) s = Some s1"
      by (rule forEach_send_deeper[OF Suc.IH s1])
    with Some s' show ?thesis by (simp add: broadcastWith_def)
  qed
qed

lemma removeClient_deeper:
  "removeClient n roomId u s = Some s' \<Longrightarrow> removeClient (n + d) roomId u s = Some s'"
  by (induction d) (auto dest: removeClient_Suc)

lemma broadcastToRoom_deeper:
  "broadcastToRoom n roomId m excl s = Some s' \<Longrightarrow>
     broadcastToRoom (n + d) roomId m excl s = Some s'"
  unfolding broadcastToRoom_def broadcastWith_def
  by (auto split: option.splits intro: forEach_send_deeper[OF removeClient_deeper])

lemma broadcastToRoom_quiet:
  "quiet s \<Longrightarrow> \<exists>s'. broadcastToRoom n roomId m excl s = Some s'"
proof (cases "getRoom s roomId")
  case None
  then show ?thesis by (simp add: broadcastToRoom_def broadcastWith_def)
next
  case (Some a)
  assume "quiet s"
  from forEach_send_quiet[OF this, of "removeClient n roomId" a "JSON_stringify m" excl
      "map fst (clients (roomHeap s a))"] Some
  show ?thesis by (auto simp: broadcastToRoom_def broadcastWith_def)
qed

lemma pingClient_quiet:
  "quiet s \<Longrightarrow> \<exists>s'. pingClient (Suc n) roomId u s = Some s'"
  using removeClient_quiet[of s n roomId u]
  by (auto simp: pingClient_def split: option.splits)

lemma closeListeners_quiet:
  "quiet s \<Longrightarrow> \<exists>s'. closeListeners (Suc n) ls s = Some s' \<and> quiet s'"
proof (induction ls arbitrary: s)
  case Nil
  then show ?case by simp
next
  case (Cons l ls)
  obtain r u where l: "l = (r, u)" by (cases l)
  from removeClient_quiet[OF Cons.prems, of n r u] obtain s1 where
    s1: "removeClient (Suc n) r u s = Some s1" "quiet s1" by blast
  from Cons.IH[OF s1(2)] s1(1) l show ?case by simp
qed

lemma ws_emit_close_quiet:
  assumes "quiet s"
  shows "\<exists>s'. ws_emit_close (Suc n) conn s = Some s'"
proof -
  let ?s0 = "s\<lparr>sockets := (sockets s)(conn_ws conn :=
                  (sockets s (conn_ws conn))\<lparr>readyState := CLOSED\<rparr>)\<rparr>"
  have q0: "quiet ?s0" using assms by (simp add: quiet_def)
  have "\<exists>s1. (case conn_userId conn of
                 None \<Rightarrow> Some ?s0
               | Some u \<Rightarrow> if u = [] then Some ?s0
                           else removeClient (Suc n) (conn_roomId conn) u ?s0) = Some s1 \<and> quiet s1"
    using q0 removeClient_quiet[OF q0, of n "conn_roomId conn"]
    by (cases "conn_userId conn") auto
  then obtain s1 where s1: "(case conn_userId conn of
                 None \<Rightarrow> Some ?s0
               | Some u \<Rightarrow> if u = [] then Some ?s0
                           else removeClient (Suc n) (conn_roomId conn) u ?s0) = Some s1" "quiet s1"
    by blast
  from closeListeners_quiet[OF s1(2), of n "listeners (sockets s (conn_ws conn))"] s1(1)
  show ?thesis by (auto simp: ws_emit_close_def Let_def)
qed

section \<open>Re-joining under a user id that is already registered\<close>

text \<open>
  C1. A join under a user id that is already registered must leave exactly one client
  registered for that user id, reachable through the registry, however many members
  the room had. The code does not do so when the user was the room's only member.
  On a fresh manager whose sockets are all open, alice joins room R1 on socket 1:
  the room is registered and she is its only member. She joins again on socket 2:
  \<^verbatim>\<open>removeClient\<close> deletes the old client and, the room being empty, deletes the room
  from \<^verbatim>\<open>this.rooms\<close>; the new client is then stored in the room object that is no
  longer registered (reference 0), and \<^verbatim>\<open>pingClient\<close> finds no room and sends nothing.
  Afterwards the registry has no room R1 and no client for alice.
  Through the ws server the second join is registered, because the server deletes the
  old client from the map itself before it calls \<^verbatim>\<open>addClient\<close>; but the old socket,
  which the server closed, then delivers its close event, whose listeners call
  \<^verbatim>\<open>removeClient\<close> for alice and so remove the new client and the room, while socket 2
  is still open.
\<close>

theorem C1_rejoin_of_only_member_is_lost:
  "(\<exists>s1 s2.
      addClient (Suc n) ''R1'' ''alice'' 1 (manager0 allOpen 1000) = Some s1 \<and>
      members s1 ''R1'' = Some [''alice''] \<and>
      addClient (Suc n) ''R1'' ''alice'' 2 s1 = Some s2 \<and>
      rooms s2 = [] \<and> members s2 ''R1'' = None \<and> lastSeenOf s2 ''R1'' ''alice'' = None \<and>
      clients (roomHeap s2 0) = [member ''alice'' 2 1000] \<and>
      sent (sockets s2 2) = []) \<and>
   (\<exists>cA sA cB sB s'.
      ws_emit_message (Suc n) (fst (wss_connection 1 (Some ''/R1'') (manager0 allOpen 1000)))
        (Json (message user_joined ''alice'' 1)) (manager0 allOpen 1000) = Some (cA, sA) \<and>
      ws_emit_message (Suc n) (fst (wss_connection 2 (Some ''/R1'') sA))
        (Json (message user_joined ''alice'' 2)) sA = Some (cB, sB) \<and>
      clients (roomHeap sB 0) = [member ''alice'' 2 1000] \<and>
      members sB ''R1'' = Some [''alice''] \<and>
      readyState (sockets sB 1) = CLOSING \<and>
      ws_emit_close (Suc n) cA sB = Some s' \<and>
      rooms s' = [] \<and> members s' ''R1'' = None \<and> readyState (sockets s' 2) = OPEN)"
  by (simp add: server_defs manager_defs scenario_defs Let_def)

section \<open>Rooms that lose their last member\<close>

text \<open>
  C2. An operation that removes a room's last member deletes the room from the
  registry before it returns: no room without members is registered afterwards.
  For the manager: when no registered room is empty and no two room ids refer to the
  same room object, the same holds after \<^verbatim>\<open>removeClient\<close> (leave), after \<^verbatim>\<open>pingClient\<close>
  (a failed heartbeat probe), after a socket's close event (disconnect) and after the
  cleanup sweep (heartbeat eviction), whenever they return; they return when no
  socket's send raises; and \<^verbatim>\<open>removeClient\<close> for the only member of a room returns
  with the room no longer registered. For the
  socket.io server: when no registered room is empty and the room object of the
  connection is registered under the connection's room id only, no registered room is
  empty after the disconnect listener; and when the user of the socket is the only
  user of the room, the room is no longer registered.
\<close>

theorem C2_no_registered_room_is_left_empty:
  "(noEmptyRoom s \<and> distinct (map snd (rooms s)) \<longrightarrow>
      (\<forall>s'. removeClient n roomId userId s = Some s' \<longrightarrow> noEmptyRoom s') \<and>
      (\<forall>s'. pingClient n roomId userId s = Some s' \<longrightarrow> noEmptyRoom s') \<and>
      (\<forall>s'. ws_emit_close n conn s = Some s' \<longrightarrow> noEmptyRoom s') \<and>
      (\<forall>s'. cleanupInactiveClients n s = Some s' \<longrightarrow> noEmptyRoom s')) \<and>
   (quiet s \<longrightarrow>
      (\<exists>s'. removeClient (Suc n) roomId userId s = Some s') \<and>
      (\<exists>s'. pingClient (Suc n) roomId userId s = Some s') \<and>
      (\<exists>s'. ws_emit_close (Suc n) conn s = Some s') \<and>
      (\<exists>s'. cleanupInactiveClients (Suc n) s = Some s')) \<and>
   (getRoom s roomId = Some a \<and> clients (roomHeap s a) = [(userId, c)] \<and>
    client_userId c = userId \<and> userId \<noteq> [] \<longrightarrow>
      (\<exists>s'. removeClient (Suc n) roomId userId s = Some s' \<and> getRoom s' roomId = None)) \<and>
   (noEmptyRoom_io t \<and> (\<forall>(r, b) \<in> set (rooms_io t). b = io_room ci \<longrightarrow> r = io_roomId ci) \<longrightarrow>
      noEmptyRoom_io (io_disconnect ci t)) \<and>
   (map_of (rooms_io t) (io_roomId ci) = Some (io_room ci) \<and>
    map_of (socketToUser t) (io_socket ci) = Some uid \<and> uid \<noteq> [] \<and>
    map fst (users (roomHeap_io t (io_room ci))) = [uid] \<longrightarrow>
      map_of (rooms_io (io_disconnect ci t)) (io_roomId ci) = None)"
proof (intro conjI impI allI)
  fix s' assume "noEmptyRoom s \<and> distinct (map snd (rooms s))"
  then have inv: "regInv s" by (simp add: regInv_def)
  { assume "removeClient n roomId userId s = Some s'"
    from removeClient_regInv[OF this inv] show "noEmptyRoom s'" by (simp add: regInv_def) }
  { assume "pingClient n roomId userId s = Some s'"
    from pingClient_regInv[OF this inv] show "noEmptyRoom s'" by (simp add: regInv_def) }
  { assume "ws_emit_close n conn s = Some s'"
    from ws_emit_close_regInv[OF this inv] show "noEmptyRoom s'" by (simp add: regInv_def) }
  { assume "cleanupInactiveClients n s = Some s'"
    then have "forEach_room n (now s) (map fst (rooms s)) s = Some s'"
      by (simp add: cleanupInactiveClients_def)
    from forEach_room_regInv[OF this inv] show "noEmptyRoom s'" by (simp add: regInv_def) }
next
  assume q: "quiet s"
  from removeClient_quiet[OF q, of n roomId userId]
  show "\<exists>s'. removeClient (Suc n) roomId userId s = Some s'" by blast
  from q show "\<exists>s'. pingClient (Suc n) roomId userId s = Some s'" by (rule pingClient_quiet)
  from q show "\<exists>s'. ws_emit_close (Suc n) conn s = Some s'" by (rule ws_emit_close_quiet)
  from q show "\<exists>s'. cleanupInactiveClients (Suc n) s = Some s'" by (rule sweep_quiet)
next
  assume "getRoom s roomId = Some a \<and> clients (roomHeap s a) = [(userId, c)] \<and>
    client_userId c = userId \<and> userId \<noteq> []"
  then show "\<exists>s'. removeClient (Suc n) roomId userId s = Some s' \<and> getRoom s' roomId = None"
    by (intro last_member_removed) auto
next
  assume "noEmptyRoom_io t \<and> (\<forall>(r, b) \<in> set (rooms_io t). b = io_room ci \<longrightarrow> r = io_roomId ci)"
  then show "noEmptyRoom_io (io_disconnect ci t)" by (intro io_disconnect_inv) auto
next
  assume "map_of (rooms_io t) (io_roomId ci) = Some (io_room ci) \<and>
    map_of (socketToUser t) (io_socket ci) = Some uid \<and> uid \<noteq> [] \<and>
    map fst (users (roomHeap_io t (io_room ci))) = [uid]"
  then show "map_of (rooms_io (io_disconnect ci t)) (io_roomId ci) = None"
    by (intro io_last_member[where uid = uid]) auto
qed

theorem C2_witness:
  "noEmptyRoom twoRooms \<and> distinct (map snd (rooms twoRooms)) \<and> quiet twoRooms \<and>
   removeClient (Suc 0) ''R1'' ''alice'' twoRooms \<noteq> None \<and>
   noEmptyRoom (the (removeClient (Suc 0) ''R1'' ''alice'' twoRooms)) \<and>
   pingClient (Suc 0) ''R1'' ''alice'' twoRooms \<noteq> None \<and>
   noEmptyRoom (the (pingClient (Suc 0) ''R1'' ''alice'' twoRooms)) \<and>
   ws_emit_close (Suc 0) \<lparr>conn_ws = 1, conn_roomId = ''R1'', conn_userId = Some ''alice''\<rparr>
     twoRooms \<noteq> None \<and>
   noEmptyRoom (the (ws_emit_close (Suc 0)
     \<lparr>conn_ws = 1, conn_roomId = ''R1'', conn_userId = Some ''alice''\<rparr> twoRooms)) \<and>
   cleanupInactiveClients (Suc 0) twoRooms \<noteq> None \<and>
   noEmptyRoom (the (cleanupInactiveClients (Suc 0) twoRooms)) \<and>
   members twoRooms ''R1'' = Some [''alice''] \<and>
   (\<exists>s'. removeClient (Suc (Suc 0)) ''R1'' ''alice'' twoRooms = Some s' \<and>
         getRoom s' ''R1'' = None) \<and>
   noEmptyRoom_io (snd io_alice) \<and>
   map_of (rooms_io (snd io_alice)) ''R1'' = Some 0 \<and>
   map fst (users (roomHeap_io (snd io_alice) 0)) = [''alice''] \<and>
   noEmptyRoom_io (io_disconnect (the (fst io_alice)) (snd io_alice)) \<and>
   map_of (rooms_io (io_disconnect (the (fst io_alice)) (snd io_alice))) ''R1'' = None"
proof -
  let ?conn = "\<lparr>conn_ws = 1, conn_roomId = ''R1'', conn_userId = Some ''alice''\<rparr>"
  let ?ci = "the (fst io_alice)" and ?t = "snd io_alice"
  note T = C2_no_registered_room_is_left_empty[where s = twoRooms and n = "Suc 0"
      and roomId = "''R1''" and userId = "''alice''" and conn = ?conn and a = 0
      and c = "snd (member ''alice'' 1 0)" and t = ?t and ci = ?ci and uid = "''alice''"]
  have pre: "noEmptyRoom twoRooms \<and> distinct (map snd (rooms twoRooms))"
    by (simp add: noEmptyRoom_def scenario_defs)
  note T0 = C2_no_registered_room_is_left_empty[where s = twoRooms and n = 0
      and roomId = "''R1''" and userId = "''alice''" and conn = ?conn]
  have q: "quiet twoRooms" by (simp add: quiet_def scenario_defs)
  from T0 q have r1: "removeClient (Suc 0) ''R1'' ''alice'' twoRooms \<noteq> None"
    and r2: "pingClient (Suc 0) ''R1'' ''alice'' twoRooms \<noteq> None"
    and r3: "ws_emit_close (Suc 0) ?conn twoRooms \<noteq> None"
    and r4: "cleanupInactiveClients (Suc 0) twoRooms \<noteq> None"
    by auto
  have pre2: "getRoom twoRooms ''R1'' = Some 0 \<and>
      clients (roomHeap twoRooms 0) = [(''alice'', snd (member ''alice'' 1 0))] \<and>
      client_userId (snd (member ''alice'' 1 0)) = ''alice'' \<and> ''alice'' \<noteq> []"
    by (simp add: getRoom_def scenario_defs)
  have pre3: "noEmptyRoom_io ?t \<and>
      (\<forall>(r, b) \<in> set (rooms_io ?t). b = io_room ?ci \<longrightarrow> r = io_roomId ?ci)"
    by (simp add: noEmptyRoom_io_def io_defs Let_def)
  have pre4: "map_of (rooms_io ?t) (io_roomId ?ci) = Some (io_room ?ci) \<and>
      map_of (socketToUser ?t) (io_socket ?ci) = Some ''alice'' \<and> ''alice'' \<noteq> [] \<and>
      map fst (users (roomHeap_io ?t (io_room ?ci))) = [''alice'']"
    by (simp add: io_defs Let_def)
  have e: "io_roomId ?ci = ''R1''" "io_room ?ci = 0" by (simp_all add: io_defs Let_def)
  from T pre r1 have c1: "noEmptyRoom (the (removeClient (Suc 0) ''R1'' ''alice'' twoRooms))"
    by auto
  from T pre r2 have c2: "noEmptyRoom (the (pingClient (Suc 0) ''R1'' ''alice'' twoRooms))"
    by auto
  from T pre r3 have c3: "noEmptyRoom (the (ws_emit_close (Suc 0) ?conn twoRooms))"
    by auto
  from T pre r4 have c4: "noEmptyRoom (the (cleanupInactiveClients (Suc 0) twoRooms))"
    by auto
  from T pre2 have c5: "\<exists>s'. removeClient (Suc (Suc 0)) ''R1'' ''alice'' twoRooms = Some s' \<and>
         getRoom s' ''R1'' = None" by blast
  from T pre3 have c6: "noEmptyRoom_io (io_disconnect ?ci ?t)" by blast
  from T pre4 e have c7: "map_of (rooms_io (io_disconnect ?ci ?t)) ''R1'' = None" by simp
  have m: "members twoRooms ''R1'' = Some [''alice'']" by (simp add: scenario_defs getRoom_def)
  from pre q r1 r2 r3 r4 c1 c2 c3 c4 c5 c6 c7 m pre3 pre4 e show ?thesis by simp
qed

section \<open>Broadcasting to a room\<close>

text \<open>
  C3. A broadcast sends the one serialized message to every member whose connection
  is open, except the excluded user; a member whose send fails is removed by leave,
  the others are still served, and nothing is raised to the caller. The code does so
  when one member's send fails, and not when two do. Room R1 holds alice, bob and
  carol on open sockets; the sends to bob and to carol raise. The broadcast of
  alice's update calls \<^verbatim>\<open>removeClient\<close> for bob, whose \<^verbatim>\<open>user_left\<close> broadcast runs
  before bob is deleted and calls \<^verbatim>\<open>removeClient\<close> for carol, whose broadcast finds
  bob still in the map and calls \<^verbatim>\<open>removeClient\<close> for bob, and so on: at no depth
  of calls does the broadcast return. When only bob's send raises, it returns with
  bob removed and the message delivered to carol.
\<close>

theorem C3_two_failing_sends_never_return:
  "broadcastToRoom n ''R1'' (message update ''alice'' 5) (Some ''alice'')
     (manager1 ''R1'' [member ''alice'' 1 0, member ''bob'' 2 0, member ''carol'' 3 0]
        (allOpen(2 := socket0 OPEN True, 3 := socket0 OPEN True)) 1000) = None \<and>
   (\<exists>s'. broadcastToRoom (Suc n) ''R1'' (message update ''alice'' 5) (Some ''alice'')
     (manager1 ''R1'' [member ''alice'' 1 0, member ''bob'' 2 0, member ''carol'' 3 0]
        (allOpen(2 := socket0 OPEN True)) 1000) = Some s' \<and>
      members s' ''R1'' = Some [''alice'', ''carol''] \<and>
      sent (sockets s' 3) =
        [Json (message user_left ''bob'' 1000), Json (message update ''alice'' 5)])"
proof
  show "broadcastToRoom n ''R1'' (message update ''alice'' 5) (Some ''alice'')
     (manager1 ''R1'' [member ''alice'' 1 0, member ''bob'' 2 0, member ''carol'' 3 0]
        (allOpen(2 := socket0 OPEN True, 3 := socket0 OPEN True)) 1000) = None"
    by (rule two_throwers_broadcast[where a = 0 and b = "''bob''" and c = "''carol''"])
       (simp_all add: thrower_def scenario_defs getRoom_def)
  show "\<exists>s'. broadcastToRoom (Suc n) ''R1'' (message update ''alice'' 5) (Some ''alice'')
     (manager1 ''R1'' [member ''alice'' 1 0, member ''bob'' 2 0, member ''carol'' 3 0]
        (allOpen(2 := socket0 OPEN True)) 1000) = Some s' \<and>
      members s' ''R1'' = Some [''alice'', ''carol''] \<and>
      sent (sockets s' 3) =
        [Json (message user_left ''bob'' 1000), Json (message update ''alice'' 5)]"
    by (simp add: manager_defs scenario_defs Let_def)
qed

section \<open>Leaving a room\<close>

text \<open>
  C4. A leave for a room that does not exist, or for a user the room does not hold, is
  to have no effect: no \<^verbatim>\<open>user_left\<close> is delivered and no member's state changes.
  \<^verbatim>\<open>removeClient\<close> returns at once only when the room does not exist; when it does,
  the \<^verbatim>\<open>user_left\<close> broadcast (line 139) runs before the map is asked whether it holds
  the user (line 149). Alice and bob join room R1 through the ws server; when bob's
  socket closes, the server's close listener and the one \<^verbatim>\<open>addClient\<close> registered both
  call \<^verbatim>\<open>removeClient\<close>, the second for a user who is no longer in the room, and alice
  is sent \<^verbatim>\<open>user_left\<close> for bob twice. Likewise a leave for carol, who never joined,
  sends \<^verbatim>\<open>user_left\<close> for carol to alice and bob and sets their \<^verbatim>\<open>lastSeen\<close>.
  A leave for a room that is not registered does change nothing.
\<close>

theorem C4_leave_of_absent_user_is_broadcast:
  "(\<exists>cA sA cB sB s'.
      ws_emit_message (Suc n) (fst (wss_connection 1 (Some ''/R1'') (manager0 allOpen 1000)))
        (Json (message user_joined ''alice'' 1)) (manager0 allOpen 1000) = Some (cA, sA) \<and>
      ws_emit_message (Suc n) (fst (wss_connection 2 (Some ''/R1'') sA))
        (Json (message user_joined ''bob'' 2)) sA = Some (cB, sB) \<and>
      members sB ''R1'' = Some [''alice'', ''bob''] \<and>
      ws_emit_close (Suc n) cB (sB\<lparr>now := 2000\<rparr>) = Some s' \<and>
      members s' ''R1'' = Some [''alice''] \<and>
      sent (sockets s' 1) = sent (sockets sB 1) @
        [Json (message user_left ''bob'' 2000), Json (message user_left ''bob'' 2000)]) \<and>
   (\<exists>s'. removeClient (Suc n) ''R1'' ''carol''
            (manager1 ''R1'' [member ''alice'' 1 0, member ''bob'' 2 0] allOpen 1000) = Some s' \<and>
      members s' ''R1'' = Some [''alice'', ''bob''] \<and>
      sent (sockets s' 1) = [Json (message user_left ''carol'' 1000)] \<and>
      sent (sockets s' 2) = [Json (message user_left ''carol'' 1000)] \<and>
      lastSeenOf s' ''R1'' ''alice'' = Some 1000 \<and> lastSeenOf s' ''R1'' ''bob'' = Some 1000) \<and>
   removeClient (Suc n) ''R9'' ''bob'' aliceAndBob = Some aliceAndBob"
  by (simp add: server_defs manager_defs scenario_defs Let_def)

section \<open>What the ws server relays\<close>

text \<open>
  C5. Every message sent out carries the server's time, never a time reported by a
  client; an update relayed to the other members carries the time of its receipt.
  The socket.io server builds the relayed update itself, with \<^verbatim>\<open>Date.now()\<close> as its
  timestamp. The ws server relays the parsed message as it came (lines 64 to 66):
  alice and bob have joined room R1; at server time 2000 alice sends an update whose
  timestamp field says 5, and bob is sent that update with the timestamp 5.
\<close>

theorem C5_ws_relay_keeps_client_timestamp:
  "(\<exists>cA sA cB sB s'.
      ws_emit_message (Suc n) (fst (wss_connection 1 (Some ''/R1'') (manager0 allOpen 1000)))
        (Json (message user_joined ''alice'' 1)) (manager0 allOpen 1000) = Some (cA, sA) \<and>
      ws_emit_message (Suc n) (fst (wss_connection 2 (Some ''/R1'') sA))
        (Json (message user_joined ''bob'' 2)) sA = Some (cB, sB) \<and>
      members sB ''R1'' = Some [''alice'', ''bob''] \<and>
      ws_emit_message (Suc n) cA (Json (message update ''alice'' 5)) (sB\<lparr>now := 2000\<rparr>)
        = Some (cA, s') \<and>
      now s' = 2000 \<and>
      sent (sockets s' 2) = sent (sockets sB 2) @ [Json (message update ''alice'' 5)]) \<and>
   (\<exists>c t. io_connection ''s1'' (Some ''alice'') (Some ''R1'') (server_io0 1000) = (Some c, t) \<and>
      emitted (io_update c (message update ''alice'' 5) (t\<lparr>now_io := 2000\<rparr>)) =
        emitted t @ [ToRoomExcept ''R1'' ''s1'' (message update ''alice'' 2000)])"
  by (simp add: server_defs manager_defs scenario_defs Let_def
        io_connection_def io_update_def falsy_def server_io0_def)

text \<open>
  C8. An inbound pong only refreshes the sender's \<^verbatim>\<open>lastSeen\<close>; it is not sent on to
  the other members. The listener that \<^verbatim>\<open>addClient\<close> registers does only that, but the
  ws server's listener relays every parsed message of a connection that has joined,
  whatever its type (lines 64 to 66): alice and bob have joined room R1; alice's pong
  is sent to bob, and bob's \<^verbatim>\<open>lastSeen\<close> is set as well as alice's.
\<close>

theorem C8_ws_relay_forwards_pong:
  "\<exists>cA sA cB sB s'.
      ws_emit_message (Suc n) (fst (wss_connection 1 (Some ''/R1'') (manager0 allOpen 1000)))
        (Json (message user_joined ''alice'' 1)) (manager0 allOpen 1000) = Some (cA, sA) \<and>
      ws_emit_message (Suc n) (fst (wss_connection 2 (Some ''/R1'') sA))
        (Json (message user_joined ''bob'' 2)) sA = Some (cB, sB) \<and>
      members sB ''R1'' = Some [''alice'', ''bob''] \<and>
      lastSeenOf sB ''R1'' ''bob'' = Some 1000 \<and>
      ws_emit_message (Suc n) cA (Json (message pong ''alice'' 5)) (sB\<lparr>now := 2000\<rparr>)
        = Some (cA, s') \<and>
      sent (sockets s' 2) = sent (sockets sB 2) @ [Json (message pong ''alice'' 5)] \<and>
      lastSeenOf s' ''R1'' ''bob'' = Some 2000 \<and>
      lastSeenOf s' ''R1'' ''alice'' = Some 2000"
  by (simp add: server_defs manager_defs scenario_defs Let_def)

section \<open>Inbound traffic and lastSeen\<close>

text \<open>
  An update does not refresh its sender's \<^verbatim>\<open>lastSeen\<close>. Alice and bob join room R1
  through the ws server at time 1000. At time 2000 alice sends an update: the server
  relays it to bob, the listener of \<^verbatim>\<open>addClient\<close> acts on pong only, and alice's
  \<^verbatim>\<open>lastSeen\<close> is still 1000 after the whole message event.
\<close>

theorem C6_update_leaves_lastSeen_counterexample:
  "\<forall>n. \<exists>cA sA cB sB s'.
      ws_emit_message (Suc n) (fst (wss_connection 1 (Some ''/R1'') (manager0 allOpen 1000)))
        (Json (message user_joined ''alice'' 1)) (manager0 allOpen 1000) = Some (cA, sA) \<and>
      ws_emit_message (Suc n) (fst (wss_connection 2 (Some ''/R1'') sA))
        (Json (message user_joined ''bob'' 2)) sA = Some (cB, sB) \<and>
      lastSeenOf sB ''R1'' ''alice'' = Some 1000 \<and>
      ws_emit_message (Suc n) cA (Json (message update ''alice'' 5)) (sB\<lparr>now := 2000\<rparr>)
        = Some (cA, s') \<and>
      now s' = 2000 \<and> lastSeenOf s' ''R1'' ''alice'' = Some 1000"
  by (simp add: server_defs manager_defs scenario_defs Let_def)

text \<open>
  C6, as the code has it. A client's \<^verbatim>\<open>lastSeen\<close> is set to the current time when a pong
  from it is processed: the listener of \<^verbatim>\<open>addClient\<close> calls \<^verbatim>\<open>updateClientLastSeen\<close>
  for a pong and does nothing for any other message. For a connection of the ws server
  that has joined as \<open>u\<close>, with \<open>u\<close> stored under its own user id in the room and no socket
  whose send raises: after the whole event of a pong, \<open>u\<close>'s \<^verbatim>\<open>lastSeen\<close> is the current
  time (the connection's listener being registered), and after the whole event of an
  update, or of any message that is neither a pong nor a join, it is what it was.
\<close>

theorem C6_pong_refreshes_lastSeen_update_does_not:
  "(msg_type d = pong \<and> lastSeenOf s roomId userId \<noteq> None \<longrightarrow>
      lastSeenOf (manager_onMessage roomId userId (Json d) s) roomId userId = Some (now s)) \<and>
   (msg_type d \<noteq> pong \<longrightarrow> manager_onMessage roomId userId (Json d) s = s) \<and>
   (quiet s \<and> getRoom s (conn_roomId conn) = Some a \<and>
    map_of (clients (roomHeap s a)) u = Some c \<and> client_userId c = u \<and> u \<noteq> [] \<and>
    conn_userId conn = Some u \<longrightarrow>
      (msg_type d = pong \<and> (conn_roomId conn, u) \<in> set (listeners (sockets s (conn_ws conn))) \<longrightarrow>
         (\<exists>s'. ws_emit_message n conn (Json d) s = Some (conn, s') \<and>
               lastSeenOf s' (conn_roomId conn) u = Some (now s))) \<and>
      (msg_type d \<noteq> pong \<and> msg_type d \<noteq> user_joined \<longrightarrow>
         (\<exists>s'. ws_emit_message n conn (Json d) s = Some (conn, s') \<and>
               lastSeenOf s' (conn_roomId conn) u = Some (client_lastSeen c))))"
proof (intro conjI impI)
  assume "msg_type d = pong \<and> lastSeenOf s roomId userId \<noteq> None"
  then show "lastSeenOf (manager_onMessage roomId userId (Json d) s) roomId userId = Some (now s)"
    by (auto simp: manager_onMessage_pong lastSeenOf_update)
next
  assume "msg_type d \<noteq> pong"
  then show "manager_onMessage roomId userId (Json d) s = s" by (rule manager_onMessage_other)
next
  assume h: "quiet s \<and> getRoom s (conn_roomId conn) = Some a \<and>
    map_of (clients (roomHeap s a)) u = Some c \<and> client_userId c = u \<and> u \<noteq> [] \<and>
    conn_userId conn = Some u"
  { assume "msg_type d = pong \<and> (conn_roomId conn, u) \<in> set (listeners (sockets s (conn_ws conn)))"
    with h show "\<exists>s'. ws_emit_message n conn (Json d) s = Some (conn, s') \<and>
               lastSeenOf s' (conn_roomId conn) u = Some (now s)"
      by (intro event_pong) auto }
  { assume "msg_type d \<noteq> pong \<and> msg_type d \<noteq> user_joined"
    with h show "\<exists>s'. ws_emit_message n conn (Json d) s = Some (conn, s') \<and>
               lastSeenOf s' (conn_roomId conn) u = Some (client_lastSeen c)"
      by (intro event_other) auto }
qed

theorem C6_witness:
  "quiet aliceAndBob \<and>
   lastSeenOf aliceAndBob ''R1'' ''alice'' = Some 500 \<and> now aliceAndBob = 1000 \<and>
   (''R1'', ''alice'') \<in> set (listeners (sockets aliceAndBob 1)) \<and>
   lastSeenOf (manager_onMessage ''R1'' ''alice'' (Json (message pong ''alice'' 7)) aliceAndBob)
     ''R1'' ''alice'' = Some 1000 \<and>
   manager_onMessage ''R1'' ''alice'' (Json (message update ''alice'' 7)) aliceAndBob = aliceAndBob \<and>
   (\<exists>s'. ws_emit_message (Suc 0) \<lparr>conn_ws = 1, conn_roomId = ''R1'', conn_userId = Some ''alice''\<rparr>
            (Json (message pong ''alice'' 7)) aliceAndBob =
            Some (\<lparr>conn_ws = 1, conn_roomId = ''R1'', conn_userId = Some ''alice''\<rparr>, s') \<and>
         lastSeenOf s' ''R1'' ''alice'' = Some 1000) \<and>
   (\<exists>s'. ws_emit_message (Suc 0) \<lparr>conn_ws = 1, conn_roomId = ''R1'', conn_userId = Some ''alice''\<rparr>
            (Json (message update ''alice'' 7)) aliceAndBob =
            Some (\<lparr>conn_ws = 1, conn_roomId = ''R1'', conn_userId = Some ''alice''\<rparr>, s') \<and>
         lastSeenOf s' ''R1'' ''alice'' = Some 500)"
proof -
  let ?conn = "\<lparr>conn_ws = 1, conn_roomId = ''R1'', conn_userId = Some ''alice''\<rparr>"
  let ?c = "snd (member ''alice'' 1 500)"
  note P = C6_pong_refreshes_lastSeen_update_does_not[where s = aliceAndBob and roomId = "''R1''"
      and userId = "''alice''" and conn = ?conn and a = 0 and u = "''alice''" and c = ?c
      and n = "Suc 0" and d = "message pong ''alice'' 7"]
  note U = C6_pong_refreshes_lastSeen_update_does_not[where s = aliceAndBob and roomId = "''R1''"
      and userId = "''alice''" and conn = ?conn and a = 0 and u = "''alice''" and c = ?c
      and n = "Suc 0" and d = "message update ''alice'' 7"]
  have pre: "quiet aliceAndBob \<and> getRoom aliceAndBob (conn_roomId ?conn) = Some 0 \<and>
      map_of (clients (roomHeap aliceAndBob 0)) ''alice'' = Some ?c \<and>
      client_userId ?c = ''alice'' \<and> ''alice'' \<noteq> [] \<and> conn_userId ?conn = Some ''alice''"
    by (simp add: quiet_def getRoom_def scenario_defs)
  have ty: "msg_type (message pong ''alice'' 7) = pong"
    "msg_type (message update ''alice'' 7) \<noteq> pong"
    "msg_type (message update ''alice'' 7) \<noteq> user_joined"
    by (simp_all add: message_def)
  have ls: "lastSeenOf aliceAndBob ''R1'' ''alice'' = Some 500" "now aliceAndBob = 1000"
    "(''R1'', ''alice'') \<in> set (listeners (sockets aliceAndBob 1))"
    "client_lastSeen ?c = 500"
    by (simp_all add: scenario_defs getRoom_def)
  from P ty(1) ls(1) have c1: "lastSeenOf (manager_onMessage ''R1'' ''alice''
      (Json (message pong ''alice'' 7)) aliceAndBob) ''R1'' ''alice'' = Some (now aliceAndBob)"
    by simp
  from U ty(2) have c2: "manager_onMessage ''R1'' ''alice''
      (Json (message update ''alice'' 7)) aliceAndBob = aliceAndBob" by blast
  from P pre ty(1) ls(3) have c3: "\<exists>s'. ws_emit_message (Suc 0) ?conn
      (Json (message pong ''alice'' 7)) aliceAndBob = Some (?conn, s') \<and>
      lastSeenOf s' (conn_roomId ?conn) ''alice'' = Some (now aliceAndBob)" by simp
  from U pre ty(2,3) have c4: "\<exists>s'. ws_emit_message (Suc 0) ?conn
      (Json (message update ''alice'' 7)) aliceAndBob = Some (?conn, s') \<and>
      lastSeenOf s' (conn_roomId ?conn) ''alice'' = Some (client_lastSeen ?c)" by simp
  from pre ls c1 c2 c3 c4 show ?thesis by simp
qed

section \<open>The cleanup sweep and the timeout\<close>

text \<open>
  A client that is stale when the sweep starts can survive it. Alice and bob are both
  stale, on open sockets. The sweep evicts alice; her \<^verbatim>\<open>user_left\<close> is delivered to
  bob, which sets bob's \<^verbatim>\<open>lastSeen\<close> to the current time (line 177), so that bob is
  no longer stale when the sweep reaches him, and he stays.
\<close>

theorem C7_stale_client_survives_counterexample:
  "\<forall>n. \<exists>s'. cleanupInactiveClients (Suc n) twoStale = Some s' \<and>
     CLEANUP_INTERVAL \<le> now twoStale - 0 \<and>
     lastSeenOf twoStale ''R1'' ''alice'' = Some 0 \<and>
     lastSeenOf twoStale ''R1'' ''bob'' = Some 0 \<and>
     now twoStale - 0 > CLIENT_TIMEOUT \<and>
     members s' ''R1'' = Some [''bob''] \<and> lastSeenOf s' ''R1'' ''bob'' = Some 100000 \<and>
     sent (sockets s' 2) = [Json (message user_left ''alice'' 100000)]"
  by (simp add: cleanupInactiveClients_def CLIENT_TIMEOUT_def CLEANUP_INTERVAL_def twoStale_def
        manager_defs scenario_defs Let_def)

text \<open>
  C7, as the code has it. Whenever the sweep returns: in every room that is still
  registered and whose last sweep was at least the cleanup interval ago, no client
  remains that is stale, so every client that was stale when the sweep reached it has
  been removed, whatever the state of its connection; a delivery earlier in the same
  sweep may have refreshed a client that was stale when the sweep started, and a client
  that is stale when the sweep starts and whose socket is not open is always removed. A room
  whose last sweep was less than the cleanup interval ago is left as it was and stays
  registered. The sweep returns when no socket's send raises. The removal is by
  \<^verbatim>\<open>removeClient\<close>, which sends \<^verbatim>\<open>user_left\<close> to every other member stored under its
  own user id whose socket is open and does not raise. The timeout is longer than the
  heartbeat interval.
\<close>

theorem C7_sweep_evicts_what_is_stale_when_reached:
  "(\<forall>s' r a. cleanupInactiveClients n s = Some s' \<and> map_of (rooms s') r = Some a \<and>
        CLEANUP_INTERVAL \<le> now s - lastCleanup (roomHeap s a) \<longrightarrow>
        noneStale (now s) (roomHeap s' a)) \<and>
   (\<forall>s' r a. cleanupInactiveClients n s = Some s' \<and> map_of (rooms s) r = Some a \<and>
        now s - lastCleanup (roomHeap s a) < CLEANUP_INTERVAL \<longrightarrow>
        roomHeap s' a = roomHeap s a \<and> map_of (rooms s') r = Some a) \<and>
   (\<forall>s' r a k c. cleanupInactiveClients n s = Some s' \<and> map_of (rooms s) r = Some a \<and>
        CLEANUP_INTERVAL \<le> now s - lastCleanup (roomHeap s a) \<and>
        map_of (clients (roomHeap s a)) k = Some c \<and>
        now s - client_lastSeen c > CLIENT_TIMEOUT \<and>
        readyState (sockets s (client_ws c)) \<noteq> OPEN \<longrightarrow>
        map_of (clients (roomHeap s' a)) k = None) \<and>
   (quiet s \<longrightarrow> (\<exists>s'. cleanupInactiveClients (Suc n) s = Some s')) \<and>
   (\<forall>s' a k c. removeClient n roomId userId s = Some s' \<and> getRoom s roomId = Some a \<and>
        (\<forall>k' c'. map_of (clients (roomHeap s a)) k' = Some c' \<longrightarrow> client_userId c' = k') \<and>
        map_of (clients (roomHeap s a)) k = Some c \<and> k \<noteq> userId \<and>
        readyState (sockets s (client_ws c)) = OPEN \<and> \<not> sendThrows (sockets s (client_ws c)) \<longrightarrow>
        Json (message user_left userId (now s)) \<in> set (sent (sockets s' (client_ws c)))) \<and>
   PING_INTERVAL < CLIENT_TIMEOUT"
proof (intro conjI allI impI)
  fix s' r a
  assume "cleanupInactiveClients n s = Some s' \<and> map_of (rooms s') r = Some a \<and>
        CLEANUP_INTERVAL \<le> now s - lastCleanup (roomHeap s a)"
  then show "noneStale (now s) (roomHeap s' a)" by (auto intro: sweep_post)
next
  fix s' r a
  assume h: "cleanupInactiveClients n s = Some s' \<and> map_of (rooms s) r = Some a \<and>
        now s - lastCleanup (roomHeap s a) < CLEANUP_INTERVAL"
  then have "roomHeap s' a = roomHeap s a \<and> map_of (rooms s') r = Some a"
    by (intro sweep_skip) auto
  then show "roomHeap s' a = roomHeap s a" and "map_of (rooms s') r = Some a" by simp_all
next
  fix s' r a k c
  assume "cleanupInactiveClients n s = Some s' \<and> map_of (rooms s) r = Some a \<and>
        CLEANUP_INTERVAL \<le> now s - lastCleanup (roomHeap s a) \<and>
        map_of (clients (roomHeap s a)) k = Some c \<and>
        now s - client_lastSeen c > CLIENT_TIMEOUT \<and>
        readyState (sockets s (client_ws c)) \<noteq> OPEN"
  then show "map_of (clients (roomHeap s' a)) k = None"
    by (intro sweep_removes_closed[where r = r and c = c]) auto
next
  assume "quiet s"
  then show "\<exists>s'. cleanupInactiveClients (Suc n) s = Some s'" by (rule sweep_quiet)
next
  fix s' a k c
  assume "removeClient n roomId userId s = Some s' \<and> getRoom s roomId = Some a \<and>
        (\<forall>k' c'. map_of (clients (roomHeap s a)) k' = Some c' \<longrightarrow> client_userId c' = k') \<and>
        map_of (clients (roomHeap s a)) k = Some c \<and> k \<noteq> userId \<and>
        readyState (sockets s (client_ws c)) = OPEN \<and> \<not> sendThrows (sockets s (client_ws c))"
  then show "Json (message user_left userId (now s)) \<in> set (sent (sockets s' (client_ws c)))"
    by (intro removeClient_notifies[where k = k and a = a]) auto
next
  show "PING_INTERVAL < CLIENT_TIMEOUT" by (simp add: PING_INTERVAL_def CLIENT_TIMEOUT_def)
qed

theorem C7_witness:
  "quiet sweepRooms \<and>
   cleanupInactiveClients (Suc 0) sweepRooms \<noteq> None \<and>
   map_of (rooms (the (cleanupInactiveClients (Suc 0) sweepRooms))) ''R1'' = Some 0 \<and>
   CLEANUP_INTERVAL \<le> now sweepRooms - lastCleanup (roomHeap sweepRooms 0) \<and>
   noneStale (now sweepRooms) (roomHeap (the (cleanupInactiveClients (Suc 0) sweepRooms)) 0) \<and>
   members (the (cleanupInactiveClients (Suc 0) sweepRooms)) ''R1'' = Some [''bob''] \<and>
   map_of (clients (roomHeap sweepRooms 0)) ''dave'' = Some (snd (member ''dave'' 4 0)) \<and>
   readyState (sockets sweepRooms 4) = CLOSED \<and>
   map_of (clients (roomHeap (the (cleanupInactiveClients (Suc 0) sweepRooms)) 0)) ''dave''
     = None \<and>
   map_of (rooms sweepRooms) ''R2'' = Some 1 \<and>
   now sweepRooms - lastCleanup (roomHeap sweepRooms 1) < CLEANUP_INTERVAL \<and>
   roomHeap (the (cleanupInactiveClients (Suc 0) sweepRooms)) 1 = roomHeap sweepRooms 1 \<and>
   members (the (cleanupInactiveClients (Suc 0) sweepRooms)) ''R2'' = Some [''carol''] \<and>
   removeClient (Suc 0) ''R1'' ''alice'' sweepRooms \<noteq> None \<and>
   Json (message user_left ''alice'' 100000) \<in>
     set (sent (sockets (the (removeClient (Suc 0) ''R1'' ''alice'' sweepRooms)) 2)) \<and>
   PING_INTERVAL < CLIENT_TIMEOUT"
proof -
  let ?r = "cleanupInactiveClients (Suc 0) sweepRooms"
  note T = C7_sweep_evicts_what_is_stale_when_reached[where s = sweepRooms and n = 0]
  note T1 = C7_sweep_evicts_what_is_stale_when_reached[where s = sweepRooms and n = "Suc 0"
      and roomId = "''R1''" and userId = "''alice''"]
  have q: "quiet sweepRooms" by (simp add: quiet_def scenario_defs)
  with T have "\<exists>s'. ?r = Some s'" by blast
  then obtain s' where s': "?r = Some s'" ..
  have ev: "rooms s' = [(''R1'', 0), (''R2'', 1)] \<and> map fst (clients (roomHeap s' 0)) = [''bob'']
      \<and> map fst (clients (roomHeap s' 1)) = [''carol'']"
    using s' by (auto simp: cleanupInactiveClients_def CLIENT_TIMEOUT_def CLEANUP_INTERVAL_def
          manager_defs scenario_defs Let_def)
  have due: "CLEANUP_INTERVAL \<le> now sweepRooms - lastCleanup (roomHeap sweepRooms 0)"
    and notdue: "now sweepRooms - lastCleanup (roomHeap sweepRooms 1) < CLEANUP_INTERVAL"
    and reg: "map_of (rooms sweepRooms) ''R2'' = Some 1"
    by (simp_all add: CLEANUP_INTERVAL_def scenario_defs)
  from ev have reg1: "map_of (rooms s') ''R1'' = Some 0" by simp
  from T1 s' reg1 due have c1: "noneStale (now sweepRooms) (roomHeap s' 0)" by blast
  from T1 s' reg notdue have c2: "roomHeap s' 1 = roomHeap sweepRooms 1" by blast
  have c3: "PING_INTERVAL < CLIENT_TIMEOUT" using T by blast
  have dv: "map_of (rooms sweepRooms) ''R1'' = Some 0 \<and>
      map_of (clients (roomHeap sweepRooms 0)) ''dave'' = Some (snd (member ''dave'' 4 0)) \<and>
      now sweepRooms - client_lastSeen (snd (member ''dave'' 4 0)) > CLIENT_TIMEOUT \<and>
      readyState (sockets sweepRooms (client_ws (snd (member ''dave'' 4 0)))) \<noteq> OPEN \<and>
      readyState (sockets sweepRooms 4) = CLOSED"
    by (simp add: CLIENT_TIMEOUT_def scenario_defs)
  from T1 s' due dv have c5: "map_of (clients (roomHeap s' 0)) ''dave'' = None" by blast
  have rm: "removeClient (Suc 0) ''R1'' ''alice'' sweepRooms \<noteq> None"
    by (simp add: manager_defs scenario_defs)
  then obtain s1 where s1: "removeClient (Suc 0) ''R1'' ''alice'' sweepRooms = Some s1" by auto
  have pre: "getRoom sweepRooms ''R1'' = Some 0 \<and>
      (\<forall>k' c'. map_of (clients (roomHeap sweepRooms 0)) k' = Some c' \<longrightarrow> client_userId c' = k') \<and>
      map_of (clients (roomHeap sweepRooms 0)) ''bob'' = Some (snd (member ''bob'' 2 90000)) \<and>
      ''bob'' \<noteq> ''alice'' \<and>
      readyState (sockets sweepRooms (client_ws (snd (member ''bob'' 2 90000)))) = OPEN \<and>
      \<not> sendThrows (sockets sweepRooms (client_ws (snd (member ''bob'' 2 90000))))"
    by (auto simp: getRoom_def scenario_defs split: if_splits)
  from T1 s1 pre have "Json (message user_left ''alice'' (now sweepRooms)) \<in>
      set (sent (sockets s1 (client_ws (snd (member ''bob'' 2 90000)))))" by blast
  then have c4: "Json (message user_left ''alice'' 100000) \<in> set (sent (sockets s1 2))"
    by (simp add: scenario_defs)
  from q s' ev due notdue reg reg1 c1 c2 c3 c4 c5 dv s1 show ?thesis
    by (simp add: members_def getRoom_def)
qed

section \<open>Connections without a room id or a user id\<close>

text \<open>
  The ws server does not drop a connection that names no room and no user. A
  connection without a URL is kept open with the room id \<^verbatim>\<open>default\<close> and no user id;
  when it then sends \<^verbatim>\<open>user_joined\<close> for alice, the room \<^verbatim>\<open>default\<close> is created with alice
  as its member.
\<close>

theorem C9_ws_connection_gets_default_room_counterexample:
  "\<forall>n. \<exists>c s1 c' s2.
     wss_connection 1 None (manager0 allOpen 1000) = (c, s1) \<and>
     conn_roomId c = ''default'' \<and> conn_userId c = None \<and>
     readyState (sockets s1 1) = OPEN \<and>
     ws_emit_message (Suc n) c (Json (message user_joined ''alice'' 1)) s1 = Some (c', s2) \<and>
     members s2 ''default'' = Some [''alice'']"
  by (simp add: server_defs manager_defs scenario_defs Let_def)

text \<open>
  C9, as the code has it. The socket.io server disconnects a connection whose
  \<^verbatim>\<open>userId\<close> or \<^verbatim>\<open>roomId\<close> query parameter is absent or empty, and changes nothing else
  of its state. The ws server's connection callback changes nothing of the manager's
  state and leaves the user id undefined; its room id is the last segment of the URL's
  path, or \<^verbatim>\<open>default\<close> when there is no URL or that segment is empty.
\<close>

theorem C9_missing_ids_at_connection:
  "(falsy userIdQ \<or> falsy roomIdQ \<longrightarrow>
      io_connection socket userIdQ roomIdQ t = (None, t\<lparr>disconnected := disconnected t @ [socket]\<rparr>)) \<and>
   snd (wss_connection ws url s) = s \<and>
   conn_userId (fst (wss_connection ws url s)) = None \<and>
   (url = None \<or> (\<exists>p. url = Some p \<and> lastSegment p = []) \<longrightarrow>
      conn_roomId (fst (wss_connection ws url s)) = ''default'') \<and>
   (\<forall>p. url = Some p \<and> lastSegment p \<noteq> [] \<longrightarrow>
      conn_roomId (fst (wss_connection ws url s)) = lastSegment p)"
  by (auto simp: io_connection_def wss_connection_def)

theorem C9_witness:
  "falsy None \<and> falsy (Some []) \<and>
   io_connection ''s1'' None (Some ''R1'') (snd io_alice) =
     (None, (snd io_alice)\<lparr>disconnected := [''s1'']\<rparr>) \<and>
   rooms_io (snd (io_connection ''s1'' (Some ''carol'') (Some []) (snd io_alice))) =
     rooms_io (snd io_alice) \<and>
   socketToUser (snd (io_connection ''s1'' (Some ''carol'') (Some []) (snd io_alice))) =
     socketToUser (snd io_alice) \<and>
   lastSegment ''/rooms/'' = [] \<and>
   conn_roomId (fst (wss_connection 1 None aliceAndBob)) = ''default'' \<and>
   conn_roomId (fst (wss_connection 1 (Some ''/rooms/'') aliceAndBob)) = ''default'' \<and>
   conn_roomId (fst (wss_connection 1 (Some ''/rooms/R1'') aliceAndBob)) = ''R1'' \<and>
   snd (wss_connection 1 None aliceAndBob) = aliceAndBob"
proof -
  note A = C9_missing_ids_at_connection[where userIdQ = None and roomIdQ = "Some ''R1''"
      and socket = "''s1''" and t = "snd io_alice" and ws = 1 and url = None and s = aliceAndBob]
  note B = C9_missing_ids_at_connection[where userIdQ = "Some ''carol''" and roomIdQ = "Some []"
      and socket = "''s1''" and t = "snd io_alice" and ws = 1 and url = "Some ''/rooms/''"
      and s = aliceAndBob]
  note C = C9_missing_ids_at_connection[where userIdQ = "Some ''carol''" and roomIdQ = "Some []"
      and socket = "''s1''" and t = "snd io_alice" and ws = 1 and url = "Some ''/rooms/R1''"
      and s = aliceAndBob]
  have f: "falsy None" "falsy (Some [])" by (simp_all add: falsy_def)
  have l: "lastSegment ''/rooms/'' = []" "lastSegment ''/rooms/R1'' = ''R1''"
    by (simp_all add: lastSegment_def)
  have d: "disconnected (snd io_alice) = []" by (simp add: io_defs Let_def)
  from A f(1) d have c1: "io_connection ''s1'' None (Some ''R1'') (snd io_alice) =
     (None, (snd io_alice)\<lparr>disconnected := [''s1'']\<rparr>)" by simp
  from B f(2) have c2: "io_connection ''s1'' (Some ''carol'') (Some []) (snd io_alice) =
     (None, (snd io_alice)\<lparr>disconnected := disconnected (snd io_alice) @ [''s1'']\<rparr>)" by simp
  from A have c3: "conn_roomId (fst (wss_connection 1 None aliceAndBob)) = ''default''"
    "snd (wss_connection 1 None aliceAndBob) = aliceAndBob" by simp_all
  from B l(1) have c4: "conn_roomId (fst (wss_connection 1 (Some ''/rooms/'') aliceAndBob)) = ''default''"
    by simp
  from C l(2) have c5: "conn_roomId (fst (wss_connection 1 (Some ''/rooms/R1'') aliceAndBob)) = ''R1''"
    by simp
  from f l c1 c2 c3 c4 c5 show ?thesis by simp
qed

section \<open>Deliveries refresh lastSeen\<close>

text \<open>
  C10. Every send of a broadcast that succeeds sets the recipient's \<^verbatim>\<open>lastSeen\<close> to the
  current time, so a client that is delivered a broadcast is not evicted by a sweep
  that runs within the timeout of that delivery, whether or not it has sent
  anything itself. Here the clients of the room are stored under their own user ids,
  as \<^verbatim>\<open>addClient\<close> stores them; \<open>k\<close> is a member that the broadcast does not exclude and
  whose socket is open and does not raise. When the broadcast returns, \<open>k\<close> is still a
  member, its \<^verbatim>\<open>lastSeen\<close> is the time of the broadcast, the serialized message is among
  the frames sent on its socket, and it is still a member after any cleanup sweep that
  runs, and returns, while the clock is at most the timeout past the broadcast. The
  broadcast returns when no socket's send raises.
\<close>

theorem C10_delivery_resets_the_inactivity_clock:
  "(quiet s \<longrightarrow> (\<exists>s'. broadcastToRoom n roomId m excludeUserId s = Some s')) \<and>
   (\<forall>s'. broadcastToRoom n roomId m excludeUserId s = Some s' \<and>
      getRoom s roomId = Some a \<and>
      (\<forall>k' c'. map_of (clients (roomHeap s a)) k' = Some c' \<longrightarrow> client_userId c' = k') \<and>
      map_of (clients (roomHeap s a)) k = Some c \<and>
      notExcluded excludeUserId c \<and>
      readyState (sockets s (client_ws c)) = OPEN \<and>
      \<not> sendThrows (sockets s (client_ws c)) \<longrightarrow>
        (\<exists>c'. map_of (clients (roomHeap s' a)) k = Some c' \<and> client_lastSeen c' = now s) \<and>
        JSON_stringify m \<in> set (sent (sockets s' (client_ws c))) \<and>
        (\<forall>t j s''. t - now s \<le> CLIENT_TIMEOUT \<and>
            cleanupInactiveClients j (s'\<lparr>now := t\<rparr>) = Some s'' \<longrightarrow>
            map_of (clients (roomHeap s'' a)) k \<noteq> None))"
proof (intro conjI allI impI)
  assume "quiet s"
  then show "\<exists>s'. broadcastToRoom n roomId m excludeUserId s = Some s'"
    by (rule broadcastToRoom_quiet)
next
  fix s'
  assume h: "broadcastToRoom n roomId m excludeUserId s = Some s' \<and>
      getRoom s roomId = Some a \<and>
      (\<forall>k' c'. map_of (clients (roomHeap s a)) k' = Some c' \<longrightarrow> client_userId c' = k') \<and>
      map_of (clients (roomHeap s a)) k = Some c \<and>
      notExcluded excludeUserId c \<and>
      readyState (sockets s (client_ws c)) = OPEN \<and>
      \<not> sendThrows (sockets s (client_ws c))"
  then have run: "broadcastToRoom n roomId m excludeUserId s = Some s'"
    and reg: "getRoom s roomId = Some a"
    and own: "\<forall>k' c'. map_of (clients (roomHeap s a)) k' = Some c' \<longrightarrow> client_userId c' = k'"
    and kc: "map_of (clients (roomHeap s a)) k = Some c"
    and ne: "notExcluded excludeUserId c"
    and op: "readyState (sockets s (client_ws c)) = OPEN"
    and ok: "\<not> sendThrows (sockets s (client_ws c))"
    by blast+
  have nt: "k \<notin> throwerIds s a" by (rule own_key_not_thrower[OF own kc ok])
  from broadcast_refreshes[OF run reg kc ne op ok nt] obtain c' where
    c': "map_of (clients (roomHeap s' a)) k = Some c'" "client_lastSeen c' = now s"
    and fr: "JSON_stringify m \<in> set (sent (sockets s' (client_ws c)))" by blast
  have nt': "k \<notin> throwerIds s' a"
    using reach_throwerIds[OF broadcastToRoom_reach[OF reg run]] nt by auto
  have keep: "map_of (clients (roomHeap s'' a)) k \<noteq> None"
    if g: "t - now s \<le> CLIENT_TIMEOUT" "cleanupInactiveClients j (s'\<lparr>now := t\<rparr>) = Some s''"
    for t j s''
  proof -
    have "throwerIds (s'\<lparr>now := t\<rparr>) a = throwerIds s' a" by (simp add: throwerIds_def)
    with c' nt' g(1) have "freshMember (s'\<lparr>now := t\<rparr>) a k" by (simp add: freshMember_def)
    from sweep_keeps_fresh[OF g(2) this] show ?thesis
      by (auto simp: freshMember_def split: option.splits)
  qed
  show "\<exists>c'. map_of (clients (roomHeap s' a)) k = Some c' \<and> client_lastSeen c' = now s"
    using c' by blast
  show "JSON_stringify m \<in> set (sent (sockets s' (client_ws c)))" by (rule fr)
  show "\<And>t j s''. t - now s \<le> CLIENT_TIMEOUT \<and>
            cleanupInactiveClients j (s'\<lparr>now := t\<rparr>) = Some s'' \<Longrightarrow>
            map_of (clients (roomHeap s'' a)) k \<noteq> None"
    using keep by blast
qed

theorem C10_witness:
  "quiet twoStale \<and>
   broadcastToRoom (Suc 0) ''R1'' (message update ''alice'' 5) (Some ''alice'') twoStale \<noteq> None \<and>
   getRoom twoStale ''R1'' = Some 0 \<and>
   map_of (clients (roomHeap twoStale 0)) ''bob'' = Some (snd (member ''bob'' 2 0)) \<and>
   now twoStale - 0 > CLIENT_TIMEOUT \<and>
   lastSeenOf (the (broadcastToRoom (Suc 0) ''R1'' (message update ''alice'' 5) (Some ''alice'')
      twoStale)) ''R1'' ''bob'' = Some (now twoStale) \<and>
   Json (message update ''alice'' 5) \<in> set (sent (sockets
      (the (broadcastToRoom (Suc 0) ''R1'' (message update ''alice'' 5) (Some ''alice'')
         twoStale)) 2)) \<and>
   cleanupInactiveClients (Suc 0)
     ((the (broadcastToRoom (Suc 0) ''R1'' (message update ''alice'' 5) (Some ''alice'')
        twoStale))\<lparr>now := 160000\<rparr>) \<noteq> None \<and>
   map_of (clients (roomHeap (the (cleanupInactiveClients (Suc 0)
     ((the (broadcastToRoom (Suc 0) ''R1'' (message update ''alice'' 5) (Some ''alice'')
        twoStale))\<lparr>now := 160000\<rparr>))) 0)) ''bob'' \<noteq> None"
proof -
  let ?b = "broadcastToRoom (Suc 0) ''R1'' (message update ''alice'' 5) (Some ''alice'') twoStale"
  have "\<exists>s'. ?b = Some s' \<and> lastSeenOf s' ''R1'' ''bob'' = Some 100000 \<and> rooms s' = [(''R1'', 0)]
      \<and> (\<exists>s''. cleanupInactiveClients (Suc 0) (s'\<lparr>now := 160000\<rparr>) = Some s'')"
    by (simp add: cleanupInactiveClients_def CLIENT_TIMEOUT_def CLEANUP_INTERVAL_def twoStale_def
          manager_defs scenario_defs Let_def)
  then obtain s' s'' where s': "?b = Some s'" and ls: "lastSeenOf s' ''R1'' ''bob'' = Some 100000"
    and s'': "cleanupInactiveClients (Suc 0) (s'\<lparr>now := 160000\<rparr>) = Some s''" by blast
  have h: "getRoom twoStale ''R1'' = Some 0"
    "\<forall>k' c'. map_of (clients (roomHeap twoStale 0)) k' = Some c' \<longrightarrow> client_userId c' = k'"
    "map_of (clients (roomHeap twoStale 0)) ''bob'' = Some (snd (member ''bob'' 2 0))"
    "notExcluded (Some ''alice'') (snd (member ''bob'' 2 0))"
    "readyState (sockets twoStale (client_ws (snd (member ''bob'' 2 0)))) = OPEN"
    "\<not> sendThrows (sockets twoStale (client_ws (snd (member ''bob'' 2 0))))"
    by (auto simp: twoStale_def scenario_defs getRoom_def notExcluded_def split: if_splits)
  have q: "quiet twoStale" by (simp add: quiet_def twoStale_def scenario_defs)
  note T0 = C10_delivery_resets_the_inactivity_clock[where s = twoStale and n = "Suc 0"
      and roomId = "''R1''" and m = "message update ''alice'' 5"
      and excludeUserId = "Some ''alice''" and a = 0 and k = "''bob''"
      and c = "snd (member ''bob'' 2 0)"]
  from T0 q have "\<exists>s'. ?b = Some s'" by blast
  from T0 s' h have T:
    "(\<exists>c'. map_of (clients (roomHeap s' 0)) ''bob'' = Some c' \<and>
           client_lastSeen c' = now twoStale) \<and>
     JSON_stringify (message update ''alice'' 5) \<in>
       set (sent (sockets s' (client_ws (snd (member ''bob'' 2 0))))) \<and>
     (\<forall>t j s''. t - now twoStale \<le> CLIENT_TIMEOUT \<and>
         cleanupInactiveClients j (s'\<lparr>now := t\<rparr>) = Some s'' \<longrightarrow>
         map_of (clients (roomHeap s'' 0)) ''bob'' \<noteq> None)"
    by blast
  have t: "160000 - now twoStale \<le> CLIENT_TIMEOUT" "now twoStale - 0 > CLIENT_TIMEOUT"
    "now twoStale = 100000" "client_ws (snd (member ''bob'' 2 0)) = 2"
    by (simp_all add: CLIENT_TIMEOUT_def twoStale_def scenario_defs)
  from T t(1) s'' have "map_of (clients (roomHeap s'' 0)) ''bob'' \<noteq> None" by blast
  moreover from T t(4) have "Json (message update ''alice'' 5) \<in> set (sent (sockets s' 2))"
    by (simp add: JSON_stringify_def)
  ultimately show ?thesis using q s' s'' ls h(1,3) t by simp
qed

end
